theory Spec2Isabelle
  imports Main "HOL-Library.List_Lexorder" "HOL-Library.Sublist"
begin

section \<open>The symbolic-algebra library, as far as the script uses it\<close>

text \<open>
  The script \<^verbatim>\<open>tool/adder_derivation.py\<close> imports \<^verbatim>\<open>Symbol\<close>, \<^verbatim>\<open>And\<close>, \<^verbatim>\<open>Or\<close> and
  \<^verbatim>\<open>to_dnf\<close> from the symbolic-algebra library. The library is not part of the
  repository; this section models the fragment of it that the script reaches: boolean
  expressions built from named symbols with the n-ary lattice operations, the truth
  constants the operations collapse to, the canonical argument order, the conversion to
  disjunctive normal form by distribution, and the default string rendering.
\<close>

text \<open>
  Modelled from the spec: the library's expression objects are missing from the sources.
  An expression is an atom with a name (\<^verbatim>\<open>Symbol(name)\<close>), a conjunction or disjunction
  node holding its argument tuple, or a truth constant. Expressions are immutable
  values, and two expressions are equal when they have the same structure.
\<close>

datatype expr =
    Symbol string
  | AndArgs "expr list"
  | OrArgs "expr list"
  | BooleanTrue
  | BooleanFalse

fun args :: "expr \<Rightarrow> expr list" where
  "args (AndArgs xs) = xs"
| "args (OrArgs xs) = xs"
| "args _ = []"

fun is_And :: "expr \<Rightarrow> bool" where
  "is_And (AndArgs xs) = True"
| "is_And _ = False"

fun is_Or :: "expr \<Rightarrow> bool" where
  "is_Or (OrArgs xs) = True"
| "is_Or _ = False"

text \<open>
  Modelled from the spec: the library's canonical ordering of arguments is missing from
  the sources. The library sorts the arguments of a lattice operation by a sort key: the
  class of the term first (atoms before compound terms; among atoms the class name, among
  compound terms \<^verbatim>\<open>And\<close> before \<^verbatim>\<open>Or\<close>), then for a symbol its name as a string and for a
  compound term the number of arguments followed by the arguments' keys. The key is
  written here as a list of numbers whose lexicographic order is that order: a name is
  its characters' codes shifted by one and closed by 0, so that a proper prefix sorts
  first.
\<close>

fun default_sort_key :: "expr \<Rightarrow> nat list" where
  "default_sort_key BooleanFalse = [2, 0]"
| "default_sort_key BooleanTrue = [2, 1]"
| "default_sort_key (Symbol n) = [2, 2] @ map (\<lambda>ch. Suc (of_char ch)) n @ [0]"
| "default_sort_key (AndArgs xs) = [5, 0, length xs] @ concat (map default_sort_key xs)"
| "default_sort_key (OrArgs xs) = [5, 1, length xs] @ concat (map default_sort_key xs)"

definition ordered :: "expr list \<Rightarrow> expr list" where
  "ordered xs = sort_key default_sort_key xs"

text \<open>
  Modelled from the spec: the constructors \<^verbatim>\<open>And(*args)\<close> and \<^verbatim>\<open>Or(*args)\<close> of the library
  are missing from the sources. A constructor call filters its arguments (the absorbing
  constant short-circuits the whole call, the neutral constant is dropped, the arguments
  of a nested operation of the same class are spliced in), collects them in a set, and
  returns the neutral constant for no argument, the argument itself for one, and a node
  over the canonically ordered arguments otherwise.
\<close>

fun And_new_args_filter :: "expr list \<Rightarrow> expr list option" where
  "And_new_args_filter [] = Some []"
| "And_new_args_filter (x # xs) =
     (if x = BooleanFalse then None
      else (case And_new_args_filter xs of
              None \<Rightarrow> None
            | Some ys \<Rightarrow>
                Some (if x = BooleanTrue then ys
                      else if is_And x then args x @ ys
                      else x # ys)))"

fun Or_new_args_filter :: "expr list \<Rightarrow> expr list option" where
  "Or_new_args_filter [] = Some []"
| "Or_new_args_filter (x # xs) =
     (if x = BooleanTrue then None
      else (case Or_new_args_filter xs of
              None \<Rightarrow> None
            | Some ys \<Rightarrow>
                Some (if x = BooleanFalse then ys
                      else if is_Or x then args x @ ys
                      else x # ys)))"

definition And :: "expr list \<Rightarrow> expr" where
  "And xs =
     (case And_new_args_filter xs of
        None \<Rightarrow> BooleanFalse
      | Some ys \<Rightarrow>
          (case remdups ys of
             [] \<Rightarrow> BooleanTrue
           | [y] \<Rightarrow> y
           | zs \<Rightarrow> AndArgs (ordered zs)))"

definition Or :: "expr list \<Rightarrow> expr" where
  "Or xs =
     (case Or_new_args_filter xs of
        None \<Rightarrow> BooleanTrue
      | Some ys \<Rightarrow>
          (case remdups ys of
             [] \<Rightarrow> BooleanFalse
           | [y] \<Rightarrow> y
           | zs \<Rightarrow> OrArgs (ordered zs)))"

text \<open>
  The distribution below recurses on a freshly built conjunction, so its termination
  needs a measure: a symbol weighs 1, a conjunction the product and a disjunction one
  more than the sum of its arguments' weights. Replacing a disjunction inside a
  conjunction by one of its arguments makes the product smaller, and the constructors
  never make it larger.
\<close>

fun weight :: "expr \<Rightarrow> nat" where
  "weight (AndArgs xs) = prod_list (map weight xs)"
| "weight (OrArgs xs) = Suc (sum_list (map weight xs))"
| "weight _ = 1"

lemma weight_pos: "1 \<le> weight e"
proof (induction e)
  case (AndArgs xs)
  then show ?case by (induction xs) (auto intro: Suc_leI)
qed simp_all

lemma prod_weight_pos: "1 \<le> prod_list (map weight xs)"
  using weight_pos by (induction xs) (auto intro!: Suc_leI simp: Suc_le_eq)

lemma prod_weight_filter: "prod_list (map weight (filter P xs)) \<le> prod_list (map weight xs)"
proof (induction xs)
  case Nil
  then show ?case by simp
next
  case (Cons x xs)
  have "prod_list (map weight (filter P xs)) \<le> weight x * prod_list (map weight xs)"
    using Cons weight_pos [of x]
    by (metis dual_order.trans mult.commute mult_le_mono2 nat_mult_1_right)
  with Cons show ?case by (simp add: mult_le_mono2)
qed

lemma prod_weight_remdups: "prod_list (map weight (remdups xs)) \<le> prod_list (map weight xs)"
proof (induction xs)
  case Nil
  then show ?case by simp
next
  case (Cons x xs)
  have "prod_list (map weight (remdups xs)) \<le> weight x * prod_list (map weight xs)"
    using Cons weight_pos [of x]
    by (metis dual_order.trans mult.commute mult_le_mono2 nat_mult_1_right)
  with Cons show ?case by (simp add: mult_le_mono2)
qed

lemma prod_weight_insort:
  "prod_list (map weight (insort_key k x xs)) = weight x * prod_list (map weight xs)"
  by (induction xs) (simp_all add: ac_simps)

lemma prod_weight_ordered: "prod_list (map weight (ordered xs)) = prod_list (map weight xs)"
  unfolding ordered_def by (induction xs) (simp_all add: prod_weight_insort)

lemma prod_weight_And_filter:
  "And_new_args_filter xs = Some ys \<Longrightarrow> prod_list (map weight ys) = prod_list (map weight xs)"
proof (induction xs arbitrary: ys)
  case Nil
  then show ?case by simp
next
  case (Cons x xs)
  from Cons.prems obtain zs where zs: "And_new_args_filter xs = Some zs"
    and ys: "ys = (if x = BooleanTrue then zs else if is_And x then args x @ zs else x # zs)"
    by (auto split: if_splits option.splits)
  have ih: "prod_list (map weight zs) = prod_list (map weight xs)"
    by (rule Cons.IH [OF zs])
  show ?case
  proof (cases "is_And x")
    case True
    then obtain as where "x = AndArgs as" by (cases x) simp_all
    then show ?thesis using ih ys by simp
  next
    case False
    then show ?thesis using ih ys by auto
  qed
qed

lemma weight_And: "weight (And xs) \<le> prod_list (map weight xs)"
proof (cases "And_new_args_filter xs")
  case None
  then show ?thesis using prod_weight_pos [of xs] by (simp add: And_def)
next
  case (Some ys)
  have "weight (And xs) = prod_list (map weight (remdups ys))"
    by (cases "remdups ys"; cases "tl (remdups ys)")
      (simp_all add: And_def Some prod_weight_ordered)
  also have "\<dots> \<le> prod_list (map weight ys)" by (rule prod_weight_remdups)
  also have "\<dots> = prod_list (map weight xs)" by (rule prod_weight_And_filter [OF Some])
  finally show ?thesis .
qed

lemma prod_weight_split:
  "y \<in> set xs \<Longrightarrow>
     weight y * prod_list (map weight (filter (\<lambda>a. a \<noteq> y) xs)) \<le> prod_list (map weight xs)"
proof (induction xs)
  case Nil
  then show ?case by simp
next
  case (Cons x xs)
  show ?case
  proof (cases "x = y")
    case True
    then show ?thesis by (simp add: prod_weight_filter)
  next
    case False
    with Cons have "weight y * prod_list (map weight (filter (\<lambda>a. a \<noteq> y) xs))
        \<le> prod_list (map weight xs)" by simp
    then have "weight x * (weight y * prod_list (map weight (filter (\<lambda>a. a \<noteq> y) xs)))
        \<le> weight x * prod_list (map weight xs)" by (rule mult_le_mono2)
    with False show ?thesis by (simp add: ac_simps)
  qed
qed

lemma weight_arg_less: "is_Or e \<Longrightarrow> x \<in> set (args e) \<Longrightarrow> weight x < weight e"
  by (cases e) (auto simp: less_Suc_eq_le member_le_sum_list)

lemma find_is_Or: "find is_Or xs = Some e \<Longrightarrow> is_Or e \<and> e \<in> set xs"
  by (induction xs) (auto split: if_splits)

lemma weight_distribute_step:
  assumes "find is_Or xs = Some e" and "x \<in> set (args e)"
  shows "weight (And [x, And (filter (\<lambda>a. a \<noteq> e) xs)]) < weight (AndArgs xs)"
proof -
  let ?r = "And (filter (\<lambda>a. a \<noteq> e) xs)"
  from assms(1) have e: "is_Or e" "e \<in> set xs" by (auto dest: find_is_Or)
  have "weight (And [x, ?r]) \<le> weight x * weight ?r"
    using weight_And [of "[x, ?r]"] by simp
  also have "\<dots> < weight e * weight ?r"
    using weight_arg_less [OF e(1) assms(2)] weight_pos [of ?r] by simp
  also have "\<dots> \<le> weight e * prod_list (map weight (filter (\<lambda>a. a \<noteq> e) xs))"
    by (rule mult_le_mono2) (rule weight_And)
  also have "\<dots> \<le> prod_list (map weight xs)" by (rule prod_weight_split [OF e(2)])
  finally show ?thesis by simp
qed

text \<open>
  Modelled from the spec: the library's distribution of disjunction over conjunction is
  missing from the sources. On a conjunction it takes the first argument that is a
  disjunction, builds the conjunction of the remaining arguments, and returns the
  disjunction of the distributed conjunctions of each disjunct with that remainder; a
  conjunction with no disjunction among its arguments is returned as it is. On a
  disjunction it distributes inside every argument. Anything else is returned as it is.
\<close>

function distribute_or_over_and :: "expr \<Rightarrow> expr" where
  "distribute_or_over_and (AndArgs xs) =
     (case find is_Or xs of
        None \<Rightarrow> AndArgs xs
      | Some cnj \<Rightarrow>
          Or (map (\<lambda>x. distribute_or_over_and (And [x, And (filter (\<lambda>a. a \<noteq> cnj) xs)]))
               (args cnj)))"
| "distribute_or_over_and (OrArgs xs) = Or (map distribute_or_over_and xs)"
| "distribute_or_over_and (Symbol n) = Symbol n"
| "distribute_or_over_and BooleanTrue = BooleanTrue"
| "distribute_or_over_and BooleanFalse = BooleanFalse"
  by pat_completeness auto
termination
proof (relation "measure weight")
  show "wf (measure weight)" by simp
next
  fix xs e x
  assume "find is_Or xs = Some e" and "x \<in> set (args e)"
  then show "(And [x, And (filter (\<lambda>a. a \<noteq> e) xs)], AndArgs xs) \<in> measure weight"
    by (simp add: weight_distribute_step del: weight.simps)
next
  fix xs :: "expr list" and x
  assume "x \<in> set xs"
  then show "(x, OrArgs xs) \<in> measure weight"
    by (simp add: less_Suc_eq_le member_le_sum_list)
qed

text \<open>
  Modelled from the spec: the library's normal-form tests are missing from the sources.
  A literal is an atom or a truth constant (the fragment has no negation). An expression
  is in negation normal form when it is a literal or a lattice operation over such; it
  is in disjunctive normal form when it is a disjunction (or a single term) whose terms
  are literals or conjunctions of literals.
\<close>

fun is_literal :: "expr \<Rightarrow> bool" where
  "is_literal (AndArgs xs) = False"
| "is_literal (OrArgs xs) = False"
| "is_literal _ = True"

fun is_nnf :: "expr \<Rightarrow> bool" where
  "is_nnf (AndArgs xs) = list_all is_nnf xs"
| "is_nnf (OrArgs xs) = list_all is_nnf xs"
| "is_nnf _ = True"

definition is_dnf :: "expr \<Rightarrow> bool" where
  "is_dnf e =
     list_all (\<lambda>lit. if is_And lit then list_all is_literal (args lit) else is_literal lit)
       (if is_Or e then args e else [e])"

text \<open>
  Modelled from the spec: the library's \<^verbatim>\<open>eliminate_implications\<close> is missing from the
  sources. It returns an expression that is already in negation normal form unchanged,
  and otherwise rebuilds every lattice operation over its converted arguments.
\<close>

fun to_nnf_args :: "expr \<Rightarrow> expr" where
  "to_nnf_args (AndArgs xs) = And (map (\<lambda>x. if is_literal x then x else to_nnf_args x) xs)"
| "to_nnf_args (OrArgs xs) = Or (map (\<lambda>x. if is_literal x then x else to_nnf_args x) xs)"
| "to_nnf_args e = e"

definition eliminate_implications :: "expr \<Rightarrow> expr" where
  "eliminate_implications e = (if is_nnf e then e else to_nnf_args e)"

text \<open>
  Modelled from the spec: the library's \<^verbatim>\<open>to_dnf(expr)\<close> (called without simplification)
  is missing from the sources. The spec asks of it a disjunctive normal form, an OR of
  AND-clauses over literals, logically equivalent to its argument. The library returns
  an argument that is not a boolean operation, or is already in disjunctive normal form,
  unchanged, and otherwise distributes disjunction over conjunction.
\<close>

definition to_dnf :: "expr \<Rightarrow> expr" where
  "to_dnf e =
     (if \<not> (is_And e \<or> is_Or e) then e
      else if is_dnf e then e
      else distribute_or_over_and (eliminate_implications e))"

text \<open>
  Modelled from the spec: the library's default string rendering is missing from the
  sources. A symbol prints as its name, a conjunction as its arguments joined by
  \<^verbatim>\<open> & \<close>, a disjunction as its arguments joined by \<^verbatim>\<open> | \<close>; an argument whose
  precedence is below the operator's is put in parentheses.
\<close>

fun precedence :: "expr \<Rightarrow> nat" where
  "precedence (AndArgs xs) = 30"
| "precedence (OrArgs xs) = 20"
| "precedence _ = 1000"

fun join :: "string \<Rightarrow> string list \<Rightarrow> string" where
  "join sep [] = []"
| "join sep [x] = x"
| "join sep (x # y # ys) = x @ sep @ join sep (y # ys)"

fun str :: "expr \<Rightarrow> string" where
  "str (Symbol n) = n"
| "str BooleanTrue = ''True''"
| "str BooleanFalse = ''False''"
| "str (AndArgs xs) =
     join '' & '' (map (\<lambda>x. if precedence x < 38 then ''('' @ str x @ '')'' else str x) xs)"
| "str (OrArgs xs) =
     join '' | '' (map (\<lambda>x. if precedence x < 36 then ''('' @ str x @ '')'' else str x) xs)"

text \<open>
  The meaning of an expression under a valuation of its atoms, and the atoms that occur
  in it. Neither is part of the library; the claims about logical equivalence and about
  what an expression references are stated with them.
\<close>

fun eval_expr :: "(string \<Rightarrow> bool) \<Rightarrow> expr \<Rightarrow> bool" where
  "eval_expr v (Symbol n) = v n"
| "eval_expr v (AndArgs xs) = (\<forall>x \<in> set xs. eval_expr v x)"
| "eval_expr v (OrArgs xs) = (\<exists>x \<in> set xs. eval_expr v x)"
| "eval_expr v BooleanTrue = True"
| "eval_expr v BooleanFalse = False"

fun atoms :: "expr \<Rightarrow> string set" where
  "atoms (Symbol n) = {n}"
| "atoms (AndArgs xs) = (\<Union>x \<in> set xs. atoms x)"
| "atoms (OrArgs xs) = (\<Union>x \<in> set xs. atoms x)"
| "atoms BooleanTrue = {}"
| "atoms BooleanFalse = {}"

section \<open>The script\<close>

text \<open>
  Python's exceptions are values: the only one the script's own statements can raise
  is the \<^verbatim>\<open>IndexError\<close> of a list subscript.
\<close>

datatype error = IndexError

text \<open>\<^verbatim>\<open>xs[i]\<close>: a negative subscript counts from the end, one out of range raises.\<close>

definition getitem :: "'a list \<Rightarrow> int \<Rightarrow> error + 'a" where
  "getitem xs i =
     (if 0 \<le> i \<and> i < int (length xs) then Inr (xs ! nat i)
      else if i < 0 \<and> - int (length xs) \<le> i then Inr (xs ! nat (int (length xs) + i))
      else Inl IndexError)"

text \<open>\<^verbatim>\<open>range(a, b)\<close>, and \<^verbatim>\<open>range(b)\<close> as \<^verbatim>\<open>range(0, b)\<close>.\<close>

definition range_list :: "int \<Rightarrow> int \<Rightarrow> int list" where
  "range_list a b = [a..b - 1]"

text \<open>The decimal rendering of an integer that an f-string field \<^verbatim>\<open>{i}\<close> produces.\<close>

definition digit_char :: "nat \<Rightarrow> char" where
  "digit_char d = char_of (48 + d)"

fun str_nat :: "nat \<Rightarrow> string" where
  "str_nat n = (if n < 10 then [digit_char n] else str_nat (n div 10) @ [digit_char (n mod 10)])"

declare str_nat.simps [simp del]

definition str_int :: "int \<Rightarrow> string" where
  "str_int i = (if i < 0 then CHR ''-'' # str_nat (nat (- i)) else str_nat (nat i))"

text \<open>
  The module's global variables and the standard output stream. A name that is not yet
  bound holds the empty list: the script reads each name only after assigning it.
\<close>

record state =
  p :: "expr list"
  s :: "expr list"
  c :: "expr list"
  stdout :: string

definition init :: state where
  "init = \<lparr>p = [], s = [], c = [], stdout = []\<rparr>"

text \<open>Line 4: \<^verbatim>\<open>p = [Symbol(f"(a[{i}] & b[{i}])") for i in range(32)]\<close>.\<close>

definition p_name :: "int \<Rightarrow> string" where
  "p_name i = ''(a['' @ str_int i @ ''] & b['' @ str_int i @ ''])''"

definition assign_p :: "state \<Rightarrow> state" where
  "assign_p st = st\<lparr>p := map (\<lambda>i. Symbol (p_name i)) (range_list 0 32)\<rparr>"

text \<open>Line 5: \<^verbatim>\<open>s = [Symbol(f"(a[{i}] | b[{i}])") for i in range(32)]\<close>.\<close>

definition s_name :: "int \<Rightarrow> string" where
  "s_name i = ''(a['' @ str_int i @ ''] | b['' @ str_int i @ ''])''"

definition assign_s :: "state \<Rightarrow> state" where
  "assign_s st = st\<lparr>s := map (\<lambda>i. Symbol (s_name i)) (range_list 0 32)\<rparr>"

text \<open>Line 6: \<^verbatim>\<open>c = [p[0]]\<close>.\<close>

definition assign_c :: "state \<Rightarrow> error + state" where
  "assign_c st =
     (case getitem (p st) 0 of
        Inl e \<Rightarrow> Inl e
      | Inr p0 \<Rightarrow> Inr (st\<lparr>c := [p0]\<rparr>))"

text \<open>
  Lines 7 and 8: \<^verbatim>\<open>for i in range(1, 32): c.append(Or(p[i], And(s[i], c[i - 1])))\<close>.
  The loop runs over the list of indices; the subscripts are evaluated left to right.
\<close>

fun build_loop :: "int list \<Rightarrow> state \<Rightarrow> error + state" where
  "build_loop [] st = Inr st"
| "build_loop (i # rest) st =
     (case getitem (p st) i of
        Inl e \<Rightarrow> Inl e
      | Inr pi \<Rightarrow>
          (case getitem (s st) i of
             Inl e \<Rightarrow> Inl e
           | Inr si \<Rightarrow>
               (case getitem (c st) (i - 1) of
                  Inl e \<Rightarrow> Inl e
                | Inr cprev \<Rightarrow>
                    build_loop rest (st\<lparr>c := c st @ [Or [pi, And [si, cprev]]]\<rparr>))))"

text \<open>The construction phase: lines 4 to 8.\<close>

definition build :: "state \<Rightarrow> error + state" where
  "build st =
     (case assign_c (assign_s (assign_p st)) of
        Inl e \<Rightarrow> Inl e
      | Inr st1 \<Rightarrow> build_loop (range_list 1 32) st1)"

text \<open>
  \<^verbatim>\<open>print(text)\<close> appends the text and a newline to the standard output stream.
\<close>

definition newline :: char where
  "newline = CHR 0x0A"

definition print :: "string \<Rightarrow> state \<Rightarrow> state" where
  "print txt st = st\<lparr>stdout := stdout st @ txt @ [newline]\<rparr>"

text \<open>
  Lines 9 and 10: \<^verbatim>\<open>for i in range(32): print(f"    assign c[{i}] = {to_dnf(c[i])};")\<close>.
\<close>

definition format_line :: "int \<Rightarrow> expr \<Rightarrow> string" where
  "format_line i e = ''    assign c['' @ str_int i @ ''] = '' @ str e @ '';''"

fun print_loop :: "int list \<Rightarrow> state \<Rightarrow> error + state" where
  "print_loop [] st = Inr st"
| "print_loop (i # rest) st =
     (case getitem (c st) i of
        Inl e \<Rightarrow> Inl e
      | Inr ci \<Rightarrow> print_loop rest (print (format_line i (to_dnf ci)) st))"

text \<open>The whole script: the construction phase, then the print loop.\<close>

definition adder_derivation :: "state \<Rightarrow> error + state" where
  "adder_derivation st =
     (case build st of
        Inl e \<Rightarrow> Inl e
      | Inr st1 \<Rightarrow> print_loop (range_list 0 32) st1)"

text \<open>The lines of a text: the pieces that end in a newline, and a last piece that does not.\<close>

fun splitlines :: "string \<Rightarrow> string list" where
  "splitlines [] = []"
| "splitlines (ch # rest) =
     (if ch = newline then [] # splitlines rest
      else (case splitlines rest of
              [] \<Rightarrow> [[ch]]
            | l # ls \<Rightarrow> (ch # l) # ls))"

section \<open>Stating the claims\<close>

text \<open>
  The definitions of this section are not part of the script: they are what the claims
  are stated with. The first reads a decimal numeral back.
\<close>

definition digit_val :: "char \<Rightarrow> nat" where
  "digit_val ch = of_char ch - 48"

definition int_of_digits :: "string \<Rightarrow> nat" where
  "int_of_digits ds = foldl (\<lambda>a ch. 10 * a + digit_val ch) 0 ds"

definition is_digit :: "char \<Rightarrow> bool" where
  "is_digit ch = (48 \<le> (of_char ch :: nat) \<and> (of_char ch :: nat) \<le> 57)"

text \<open>
  The text that a sequence of \<^verbatim>\<open>print\<close> calls writes, and the lines the script is
  expected to print for the carries of a state.
\<close>

definition unlines :: "string list \<Rightarrow> string" where
  "unlines ls = concat (map (\<lambda>l. l @ [newline]) ls)"

definition carry_lines :: "state \<Rightarrow> string list" where
  "carry_lines st = map (\<lambda>i. format_line (int i) (to_dnf (c st ! i))) [0..<32]"

text \<open>
  The bit index a printed line names: the digits between \<^verbatim>\<open>    assign c[\<close> and \<^verbatim>\<open>]\<close>.
\<close>

definition line_index :: "string \<Rightarrow> nat option" where
  "line_index l =
     (let ds = takeWhile is_digit (drop 13 l) in
      if take 13 l = ''    assign c['' \<and> ds \<noteq> [] \<and> take 1 (drop (13 + length ds) l) = '']''
      then Some (int_of_digits ds) else None)"

text \<open>
  The valuation of the atoms under an assignment to the input bits \<open>a\<close> and \<open>b\<close>: the
  atom named \<^verbatim>\<open>(a[j] & b[j])\<close> is the conjunction and the atom named \<^verbatim>\<open>(a[j] | b[j])\<close>
  the disjunction of bit \<open>j\<close> of the two words.
\<close>

definition interp :: "(nat \<Rightarrow> bool) \<Rightarrow> (nat \<Rightarrow> bool) \<Rightarrow> string \<Rightarrow> bool" where
  "interp a b nm =
     (case find (\<lambda>j. nm = p_name (int j)) [0..<32] of
        Some j \<Rightarrow> a j \<and> b j
      | None \<Rightarrow>
          (case find (\<lambda>j. nm = s_name (int j)) [0..<32] of
             Some j \<Rightarrow> a j \<or> b j
           | None \<Rightarrow> False))"

text \<open>
  The spec's recurrence on truth values (section 8 of the spec):
  \<open>c[0] = a[0] AND b[0]\<close> and \<open>c[i] = (a[i] AND b[i]) OR ((a[i] OR b[i]) AND c[i-1])\<close>.
\<close>

fun carry_spec :: "(nat \<Rightarrow> bool) \<Rightarrow> (nat \<Rightarrow> bool) \<Rightarrow> nat \<Rightarrow> bool" where
  "carry_spec a b 0 = (a 0 \<and> b 0)"
| "carry_spec a b (Suc i) =
     ((a (Suc i) \<and> b (Suc i)) \<or> ((a (Suc i) \<or> b (Suc i)) \<and> carry_spec a b i))"

text \<open>
  The closed form of claim C10: the conjunction \<open>p[j] AND s[j+1] AND ... AND s[i]\<close>, built
  with the library's constructor, the list of its atoms, and the terms of a disjunction and
  of a conjunction (the expression itself when it is not such a node).
\<close>

definition clause_atoms :: "nat \<Rightarrow> nat \<Rightarrow> expr list" where
  "clause_atoms i j = Symbol (p_name (int j)) # map (\<lambda>m. Symbol (s_name (int m))) [j + 1..<i + 1]"

definition clause :: "nat \<Rightarrow> nat \<Rightarrow> expr" where
  "clause i j = And (clause_atoms i j)"

definition disjuncts :: "expr \<Rightarrow> expr list" where
  "disjuncts e = (if is_Or e then args e else [e])"

definition literals :: "expr \<Rightarrow> expr list" where
  "literals e = (if is_And e then args e else [e])"

text \<open>
  Devices of the proofs below: the node a constructor builds over a list of arguments that
  needs no filtering, the arguments an argument contributes to a constructor call, the
  arguments that contribute themselves, the test for a symbol, and the clause of C10 with
  further atoms appended.
\<close>

definition And_node :: "expr list \<Rightarrow> expr" where
  "And_node ys = (case ordered (remdups ys) of [] \<Rightarrow> BooleanTrue | [y] \<Rightarrow> y | zs \<Rightarrow> AndArgs zs)"

definition Or_node :: "expr list \<Rightarrow> expr" where
  "Or_node ys = (case ordered (remdups ys) of [] \<Rightarrow> BooleanFalse | [y] \<Rightarrow> y | zs \<Rightarrow> OrArgs zs)"

definition and_flat :: "expr \<Rightarrow> expr list" where
  "and_flat x = (if x = BooleanTrue then [] else if is_And x then args x else [x])"

definition or_flat :: "expr \<Rightarrow> expr list" where
  "or_flat x = (if x = BooleanFalse then [] else if is_Or x then args x else [x])"

definition and_plain :: "expr \<Rightarrow> bool" where
  "and_plain x = (\<not> is_And x \<and> x \<noteq> BooleanTrue \<and> x \<noteq> BooleanFalse)"

definition or_plain :: "expr \<Rightarrow> bool" where
  "or_plain x = (\<not> is_Or x \<and> x \<noteq> BooleanTrue \<and> x \<noteq> BooleanFalse)"

fun is_Symbol :: "expr \<Rightarrow> bool" where
  "is_Symbol (Symbol n) = True"
| "is_Symbol _ = False"

definition gclause :: "nat \<Rightarrow> expr list \<Rightarrow> nat \<Rightarrow> expr" where
  "gclause n H j =
     And (Symbol (p_name (int j)) # map (\<lambda>m. Symbol (s_name (int m))) [j + 1..<n + 1] @ H)"

text \<open>
  Reading a printed expression back. The text is read left to right as a boolean
  expression over the input bits \<^verbatim>\<open>a[n]\<close> and \<^verbatim>\<open>b[n]\<close>, with \<^verbatim>\<open>&\<close> binding tighter than
  \<^verbatim>\<open>|\<close> and parentheses for grouping. Each open parenthesis has a frame: the value of the
  disjuncts closed so far and the value of the conjunction being read. A variable or a
  closed parenthesis is a factor of the current conjunction, \<^verbatim>\<open>|\<close> closes a disjunct. The
  value of a text is that of its outermost frame; a text with a character that is not
  part of an expression, or with unbalanced parentheses, has none.
\<close>

type_synonym frame = "bool \<times> bool"

type_synonym reader = "frame list \<times> (bool \<times> nat) option"

fun factor :: "bool \<Rightarrow> frame list \<Rightarrow> frame list option" where
  "factor v [] = None"
| "factor v ((orv, andv) # fs) = Some ((orv, andv \<and> v) # fs)"

fun feed :: "(nat \<Rightarrow> bool) \<Rightarrow> (nat \<Rightarrow> bool) \<Rightarrow> char \<Rightarrow> reader \<Rightarrow> reader option" where
  "feed a b ch (fs, Some (is_a, n)) =
     (if ch = CHR ''['' then Some (fs, Some (is_a, n))
      else if is_digit ch then Some (fs, Some (is_a, 10 * n + digit_val ch))
      else if ch = CHR '']'' then
        (case factor (if is_a then a n else b n) fs of
           None \<Rightarrow> None
         | Some fs' \<Rightarrow> Some (fs', None))
      else None)"
| "feed a b ch (fs, None) =
     (if ch = CHR '' '' \<or> ch = CHR ''&'' then Some (fs, None)
      else if ch = CHR ''a'' then Some (fs, Some (True, 0))
      else if ch = CHR ''b'' then Some (fs, Some (False, 0))
      else if ch = CHR ''('' then Some ((False, True) # fs, None)
      else if ch = CHR '')'' then
        (case fs of
           (orv, andv) # f # fs' \<Rightarrow>
             (case factor (orv \<or> andv) (f # fs') of
                None \<Rightarrow> None
              | Some fs'' \<Rightarrow> Some (fs'', None))
         | _ \<Rightarrow> None)
      else if ch = CHR ''|'' then
        (case fs of
           (orv, andv) # fs' \<Rightarrow> Some ((orv \<or> andv, True) # fs', None)
         | [] \<Rightarrow> None)
      else None)"

fun run_text :: "(nat \<Rightarrow> bool) \<Rightarrow> (nat \<Rightarrow> bool) \<Rightarrow> string \<Rightarrow> reader \<Rightarrow> reader option" where
  "run_text a b [] r = Some r"
| "run_text a b (ch # rest) r =
     (case feed a b ch r of None \<Rightarrow> None | Some r' \<Rightarrow> run_text a b rest r')"

definition eval_text :: "(nat \<Rightarrow> bool) \<Rightarrow> (nat \<Rightarrow> bool) \<Rightarrow> string \<Rightarrow> bool option" where
  "eval_text a b t =
     (case run_text a b t ([(False, True)], None) of
        Some ([(orv, andv)], None) \<Rightarrow> Some (orv \<or> andv)
      | _ \<Rightarrow> None)"

text \<open>
  Devices of the proofs that the rendering reads back: the expressions whose rendering
  is such a text (atoms named as the script names them, no truth constant, no empty
  disjunction), the rendering of an argument with its parentheses, and what reading a
  rendered argument and a rendered expression does to the frames.
\<close>

fun printable :: "expr \<Rightarrow> bool" where
  "printable (Symbol n) =
     (n \<in> set (map (\<lambda>j. p_name (int j)) [0..<32]) \<or> n \<in> set (map (\<lambda>j. s_name (int j)) [0..<32]))"
| "printable (AndArgs xs) = (\<forall>x \<in> set xs. printable x)"
| "printable (OrArgs xs) = (xs \<noteq> [] \<and> (\<forall>x \<in> set xs. printable x))"
| "printable _ = False"

definition pstr :: "expr \<Rightarrow> string" where
  "pstr e = (if is_And e \<or> is_Or e then ''('' @ str e @ '')'' else str e)"

definition reads_factor :: "(nat \<Rightarrow> bool) \<Rightarrow> (nat \<Rightarrow> bool) \<Rightarrow> expr \<Rightarrow> bool" where
  "reads_factor a b e =
     (\<forall>orv andv fs. run_text a b (pstr e) ((orv, andv) # fs, None)
        = Some ((orv, andv \<and> eval_expr (interp a b) e) # fs, None))"

definition reads_top :: "(nat \<Rightarrow> bool) \<Rightarrow> (nat \<Rightarrow> bool) \<Rightarrow> expr \<Rightarrow> bool" where
  "reads_top a b e =
     (\<forall>fs. \<exists>orv andv. run_text a b (str e) ((False, True) # fs, None) = Some ((orv, andv) # fs, None)
        \<and> (orv \<or> andv) = eval_expr (interp a b) e)"

section \<open>Facts about the library model\<close>

lemma set_ordered [simp]: "set (ordered xs) = set xs"
  by (simp add: ordered_def)

lemma is_And_args: "is_And x \<Longrightarrow> x = AndArgs (args x)"
  by (cases x) simp_all

lemma is_Or_args: "is_Or x \<Longrightarrow> x = OrArgs (args x)"
  by (cases x) simp_all

lemma eval_And_filter:
  "And_new_args_filter xs = Some ys \<Longrightarrow>
     (\<forall>y \<in> set ys. eval_expr v y) = (\<forall>x \<in> set xs. eval_expr v x)"
proof (induction xs arbitrary: ys)
  case Nil
  then show ?case by simp
next
  case (Cons x xs)
  from Cons.prems obtain zs where zs: "And_new_args_filter xs = Some zs"
    and nf: "x \<noteq> BooleanFalse"
    and ys: "ys = (if x = BooleanTrue then zs else if is_And x then args x @ zs else x # zs)"
    by (auto split: if_splits option.splits)
  have ih: "(\<forall>y \<in> set zs. eval_expr v y) = (\<forall>x \<in> set xs. eval_expr v x)"
    by (rule Cons.IH [OF zs])
  show ?case
  proof (cases "is_And x")
    case True
    then obtain as where "x = AndArgs as" by (cases x) simp_all
    then show ?thesis using ih ys by (auto simp: ball_Un)
  next
    case False
    then show ?thesis using ih ys by auto
  qed
qed

lemma eval_And_filter_None:
  "And_new_args_filter xs = None \<Longrightarrow> \<exists>x \<in> set xs. \<not> eval_expr v x"
  by (induction xs) (auto split: if_splits option.splits)

lemma eval_And: "eval_expr v (And xs) = (\<forall>x \<in> set xs. eval_expr v x)"
proof (cases "And_new_args_filter xs")
  case None
  then show ?thesis using eval_And_filter_None [OF None, of v] by (simp add: And_def)
next
  case (Some ys)
  have "eval_expr v (And xs) = (\<forall>y \<in> set (remdups ys). eval_expr v y)"
    by (cases "remdups ys"; cases "tl (remdups ys)") (auto simp: And_def Some)
  then show ?thesis using eval_And_filter [OF Some, of v] by simp
qed

lemma eval_Or_filter:
  "Or_new_args_filter xs = Some ys \<Longrightarrow>
     (\<exists>y \<in> set ys. eval_expr v y) = (\<exists>x \<in> set xs. eval_expr v x)"
proof (induction xs arbitrary: ys)
  case Nil
  then show ?case by simp
next
  case (Cons x xs)
  from Cons.prems obtain zs where zs: "Or_new_args_filter xs = Some zs"
    and ys: "ys = (if x = BooleanFalse then zs else if is_Or x then args x @ zs else x # zs)"
    by (auto split: if_splits option.splits)
  have ih: "(\<exists>y \<in> set zs. eval_expr v y) = (\<exists>x \<in> set xs. eval_expr v x)"
    by (rule Cons.IH [OF zs])
  show ?case
  proof (cases "is_Or x")
    case True
    then obtain as where "x = OrArgs as" by (cases x) simp_all
    then show ?thesis using ih ys by (auto simp: bex_Un)
  next
    case False
    then show ?thesis using ih ys by auto
  qed
qed

lemma eval_Or_filter_None:
  "Or_new_args_filter xs = None \<Longrightarrow> \<exists>x \<in> set xs. eval_expr v x"
  by (induction xs) (auto split: if_splits option.splits)

lemma eval_Or: "eval_expr v (Or xs) = (\<exists>x \<in> set xs. eval_expr v x)"
proof (cases "Or_new_args_filter xs")
  case None
  then show ?thesis using eval_Or_filter_None [OF None, of v] by (simp add: Or_def)
next
  case (Some ys)
  have "eval_expr v (Or xs) = (\<exists>y \<in> set (remdups ys). eval_expr v y)"
    by (cases "remdups ys"; cases "tl (remdups ys)") (auto simp: Or_def Some)
  then show ?thesis using eval_Or_filter [OF Some, of v] by simp
qed

lemma And_filter_None: "And_new_args_filter xs = None \<longleftrightarrow> BooleanFalse \<in> set xs"
  by (induction xs) (auto split: option.splits)

lemma Or_filter_None: "Or_new_args_filter xs = None \<longleftrightarrow> BooleanTrue \<in> set xs"
  by (induction xs) (auto split: option.splits)

lemma atoms_And_filter:
  "And_new_args_filter xs = Some ys \<Longrightarrow> (\<Union>y \<in> set ys. atoms y) = (\<Union>x \<in> set xs. atoms x)"
proof (induction xs arbitrary: ys)
  case Nil
  then show ?case by simp
next
  case (Cons x xs)
  from Cons.prems obtain zs where zs: "And_new_args_filter xs = Some zs"
    and ys: "ys = (if x = BooleanTrue then zs else if is_And x then args x @ zs else x # zs)"
    by (auto split: if_splits option.splits)
  have ih: "(\<Union>y \<in> set zs. atoms y) = (\<Union>x \<in> set xs. atoms x)"
    by (rule Cons.IH [OF zs])
  show ?case
  proof (cases "is_And x")
    case True
    then obtain as where "x = AndArgs as" by (cases x) simp_all
    then show ?thesis using ih ys by simp
  next
    case False
    then show ?thesis using ih ys by auto
  qed
qed

lemma atoms_Or_filter:
  "Or_new_args_filter xs = Some ys \<Longrightarrow> (\<Union>y \<in> set ys. atoms y) = (\<Union>x \<in> set xs. atoms x)"
proof (induction xs arbitrary: ys)
  case Nil
  then show ?case by simp
next
  case (Cons x xs)
  from Cons.prems obtain zs where zs: "Or_new_args_filter xs = Some zs"
    and ys: "ys = (if x = BooleanFalse then zs else if is_Or x then args x @ zs else x # zs)"
    by (auto split: if_splits option.splits)
  have ih: "(\<Union>y \<in> set zs. atoms y) = (\<Union>x \<in> set xs. atoms x)"
    by (rule Cons.IH [OF zs])
  show ?case
  proof (cases "is_Or x")
    case True
    then obtain as where "x = OrArgs as" by (cases x) simp_all
    then show ?thesis using ih ys by simp
  next
    case False
    then show ?thesis using ih ys by auto
  qed
qed

lemma atoms_And: "BooleanFalse \<notin> set xs \<Longrightarrow> atoms (And xs) = (\<Union>x \<in> set xs. atoms x)"
proof -
  assume "BooleanFalse \<notin> set xs"
  then obtain ys where ys: "And_new_args_filter xs = Some ys"
    using And_filter_None [of xs] by (cases "And_new_args_filter xs") auto
  have "atoms (And xs) = (\<Union>y \<in> set (remdups ys). atoms y)"
    by (cases "remdups ys"; cases "tl (remdups ys)") (simp_all add: And_def ys)
  then show ?thesis using atoms_And_filter [OF ys] by simp
qed

lemma atoms_Or: "BooleanTrue \<notin> set xs \<Longrightarrow> atoms (Or xs) = (\<Union>x \<in> set xs. atoms x)"
proof -
  assume "BooleanTrue \<notin> set xs"
  then obtain ys where ys: "Or_new_args_filter xs = Some ys"
    using Or_filter_None [of xs] by (cases "Or_new_args_filter xs") auto
  have "atoms (Or xs) = (\<Union>y \<in> set (remdups ys). atoms y)"
    by (cases "remdups ys"; cases "tl (remdups ys)") (simp_all add: Or_def ys)
  then show ?thesis using atoms_Or_filter [OF ys] by simp
qed

lemma atoms_And_subset: "atoms (And xs) \<subseteq> (\<Union>x \<in> set xs. atoms x)"
proof (cases "BooleanFalse \<in> set xs")
  case True
  then have "And xs = BooleanFalse" using And_filter_None [of xs] by (simp add: And_def)
  then show ?thesis by simp
next
  case False
  then show ?thesis by (simp add: atoms_And)
qed

lemma atoms_Or_subset: "atoms (Or xs) \<subseteq> (\<Union>x \<in> set xs. atoms x)"
proof (cases "BooleanTrue \<in> set xs")
  case True
  then have "Or xs = BooleanTrue" using Or_filter_None [of xs] by (simp add: Or_def)
  then show ?thesis by simp
next
  case False
  then show ?thesis by (simp add: atoms_Or)
qed

lemma atoms_nonempty_not_const: "atoms e \<noteq> {} \<Longrightarrow> e \<noteq> BooleanTrue \<and> e \<noteq> BooleanFalse"
  by auto

lemma is_nnf_all: "is_nnf e"
  by (induction e) (simp_all add: list_all_iff)

lemma eliminate_implications_id: "eliminate_implications e = e"
  by (simp add: eliminate_implications_def is_nnf_all)

lemma eval_distribute: "eval_expr v (distribute_or_over_and e) = eval_expr v e"
proof (induction e rule: distribute_or_over_and.induct)
  case (1 xs)
  show ?case
  proof (cases "find is_Or xs")
    case None
    then show ?thesis by simp
  next
    case (Some cnj)
    then have cnj: "is_Or cnj" "cnj \<in> set xs" by (auto dest: find_is_Or)
    then obtain ds where ds: "cnj = OrArgs ds" by (cases cnj) simp_all
    have "eval_expr v (distribute_or_over_and (AndArgs xs))
        = (\<exists>x \<in> set ds. eval_expr v (And [x, And (filter (\<lambda>a. a \<noteq> cnj) xs)]))"
      using 1 [OF Some] by (simp add: Some eval_Or ds)
    also have "\<dots> = (eval_expr v cnj \<and> (\<forall>a \<in> set xs. a \<noteq> cnj \<longrightarrow> eval_expr v a))"
      by (auto simp: eval_And ds)
    also have "\<dots> = (\<forall>a \<in> set xs. eval_expr v a)"
      using cnj(2) by auto
    finally show ?thesis by simp
  qed
next
  case (2 xs)
  then show ?case by (simp add: eval_Or)
qed simp_all

lemma eval_to_dnf: "eval_expr v (to_dnf e) = eval_expr v e"
  by (simp add: to_dnf_def eval_distribute eliminate_implications_id)

lemma atoms_arg_subset: "x \<in> set (args e) \<Longrightarrow> atoms x \<subseteq> atoms e"
  by (cases e) auto

lemma atoms_distribute: "atoms (distribute_or_over_and e) \<subseteq> atoms e"
proof (induction e rule: distribute_or_over_and.induct)
  case (1 xs)
  show ?case
  proof (cases "find is_Or xs")
    case None
    then show ?thesis by simp
  next
    case (Some cnj)
    then have cnj: "is_Or cnj" "cnj \<in> set xs" by (auto dest: find_is_Or)
    have "atoms (distribute_or_over_and (And [x, And (filter (\<lambda>a. a \<noteq> cnj) xs)]))
        \<subseteq> atoms (AndArgs xs)" if x: "x \<in> set (args cnj)" for x
    proof -
      let ?r = "And (filter (\<lambda>a. a \<noteq> cnj) xs)"
      have "atoms (distribute_or_over_and (And [x, ?r])) \<subseteq> atoms (And [x, ?r])"
        by (rule 1 [OF Some x])
      also have "\<dots> \<subseteq> atoms x \<union> atoms ?r"
        using atoms_And_subset [of "[x, ?r]"] by simp
      also have "\<dots> \<subseteq> atoms cnj \<union> (\<Union>a \<in> set xs. atoms a)"
        using atoms_arg_subset [OF x] atoms_And_subset [of "filter (\<lambda>a. a \<noteq> cnj) xs"]
        by auto
      also have "\<dots> \<subseteq> atoms (AndArgs xs)" using cnj(2) by auto
      finally show ?thesis .
    qed
    then have "(\<Union>x \<in> set (args cnj).
        atoms (distribute_or_over_and (And [x, And (filter (\<lambda>a. a \<noteq> cnj) xs)])))
        \<subseteq> atoms (AndArgs xs)" by blast
    with atoms_Or_subset [of "map (\<lambda>x. distribute_or_over_and
        (And [x, And (filter (\<lambda>a. a \<noteq> cnj) xs)])) (args cnj)"]
    show ?thesis by (simp add: Some)
  qed
next
  case (2 xs)
  have "atoms (Or (map distribute_or_over_and xs)) \<subseteq> (\<Union>x \<in> set xs. atoms (distribute_or_over_and x))"
    using atoms_Or_subset [of "map distribute_or_over_and xs"] by simp
  with 2 show ?case by fastforce
qed simp_all

lemma atoms_to_dnf: "atoms (to_dnf e) \<subseteq> atoms e"
  by (simp add: to_dnf_def atoms_distribute eliminate_implications_id)

lemma set_join: "set (join sep xs) \<subseteq> set sep \<union> (\<Union>x \<in> set xs. set x)"
  by (induction sep xs rule: join.induct) auto

lemma notin_join:
  "ch \<notin> set sep \<Longrightarrow> (\<And>x. x \<in> set xs \<Longrightarrow> ch \<notin> set x) \<Longrightarrow> ch \<notin> set (join sep xs)"
  using set_join [of sep xs] by auto

lemma newline_str:
  "(\<And>n. n \<in> atoms e \<Longrightarrow> newline \<notin> set n) \<Longrightarrow> newline \<notin> set (str e)"
proof (induction e)
  case (Symbol n)
  then show ?case by simp
next
  case (AndArgs xs)
  have "newline \<notin> set y"
    if "y \<in> set (map (\<lambda>x. if precedence x < 38 then ''('' @ str x @ '')'' else str x) xs)" for y
  proof -
    from that obtain x where x: "x \<in> set xs"
      and y: "y = (if precedence x < 38 then ''('' @ str x @ '')'' else str x)" by auto
    have "newline \<notin> set (str x)" using AndArgs.IH [OF x] AndArgs.prems x by auto
    then show ?thesis by (simp add: y newline_def)
  qed
  then show ?case by (simp del: set_map) (rule notin_join, simp_all add: newline_def)
next
  case (OrArgs xs)
  have "newline \<notin> set y"
    if "y \<in> set (map (\<lambda>x. if precedence x < 36 then ''('' @ str x @ '')'' else str x) xs)" for y
  proof -
    from that obtain x where x: "x \<in> set xs"
      and y: "y = (if precedence x < 36 then ''('' @ str x @ '')'' else str x)" by auto
    have "newline \<notin> set (str x)" using OrArgs.IH [OF x] OrArgs.prems x by auto
    then show ?thesis by (simp add: y newline_def)
  qed
  then show ?case by (simp del: set_map) (rule notin_join, simp_all add: newline_def)
qed (simp_all add: newline_def)

section \<open>Decimal numerals and the atoms' names\<close>

lemma digit_val_digit_char: "d < 10 \<Longrightarrow> digit_val (digit_char d) = d"
  by (simp add: digit_val_def digit_char_def)

lemma int_of_digits_snoc: "int_of_digits (ds @ [ch]) = 10 * int_of_digits ds + digit_val ch"
  by (simp add: int_of_digits_def)

lemma int_of_digits_str_nat: "int_of_digits (str_nat n) = n"
proof (induction n rule: str_nat.induct)
  case (1 n)
  show ?case
  proof (cases "n < 10")
    case True
    then show ?thesis
      by (subst str_nat.simps) (simp add: int_of_digits_def digit_val_digit_char)
  next
    case False
    with 1 have "int_of_digits (str_nat (n div 10)) = n div 10" by simp
    with False show ?thesis
      by (subst str_nat.simps) (simp add: int_of_digits_snoc digit_val_digit_char)
  qed
qed

lemma str_nat_inj: "str_nat m = str_nat n \<Longrightarrow> m = n"
  by (metis int_of_digits_str_nat)

lemma is_digit_digit_char: "d < 10 \<Longrightarrow> is_digit (digit_char d)"
  by (simp add: is_digit_def digit_char_def)

lemma str_nat_digits: "ch \<in> set (str_nat n) \<Longrightarrow> is_digit ch"
proof (induction n rule: str_nat.induct)
  case (1 n)
  show ?case
  proof (cases "n < 10")
    case True
    with 1(2) show ?thesis
      by (subst (asm) str_nat.simps) (simp add: is_digit_digit_char)
  next
    case False
    with 1 show ?thesis
      by (subst (asm) str_nat.simps) (auto simp: is_digit_digit_char)
  qed
qed

lemma str_int_nonneg: "0 \<le> i \<Longrightarrow> str_int i = str_nat (nat i)"
  by (simp add: str_int_def)

lemma takeWhile_sep: "a \<notin> set xs \<Longrightarrow> takeWhile (\<lambda>x. x \<noteq> a) (xs @ a # r) = xs"
  by (induction xs) auto

lemma append_eq_sep:
  assumes "a \<notin> set xs" and "a \<notin> set ys" and "xs @ a # r = ys @ a # r'"
  shows "xs = ys \<and> r = r'"
proof -
  have "takeWhile (\<lambda>x. x \<noteq> a) (xs @ a # r) = xs"
    using assms(1) by (rule takeWhile_sep)
  moreover have "takeWhile (\<lambda>x. x \<noteq> a) (ys @ a # r') = ys"
    using assms(2) by (rule takeWhile_sep)
  ultimately have "xs = ys" using assms(3) by simp
  with assms(3) show ?thesis by simp
qed

lemma bracket_not_digit: "is_digit ch \<Longrightarrow> ch \<noteq> CHR '']''"
  by (auto simp: is_digit_def)

lemma str_nat_no_bracket: "CHR '']'' \<notin> set (str_nat n)"
  using str_nat_digits bracket_not_digit by blast

lemma p_name_inj: "0 \<le> i \<Longrightarrow> 0 \<le> j \<Longrightarrow> p_name i = p_name j \<Longrightarrow> i = j"
proof -
  assume i: "0 \<le> i" and j: "0 \<le> j" and eq: "p_name i = p_name j"
  from eq have "str_nat (nat i) @ CHR '']'' # ('' & b['' @ str_nat (nat i) @ ''])'')
      = str_nat (nat j) @ CHR '']'' # ('' & b['' @ str_nat (nat j) @ ''])'')"
    using i j by (simp add: p_name_def str_int_nonneg)
  from append_eq_sep [OF str_nat_no_bracket str_nat_no_bracket this]
  have "nat i = nat j" by (auto dest: str_nat_inj)
  with i j show ?thesis by simp
qed

lemma s_name_inj: "0 \<le> i \<Longrightarrow> 0 \<le> j \<Longrightarrow> s_name i = s_name j \<Longrightarrow> i = j"
proof -
  assume i: "0 \<le> i" and j: "0 \<le> j" and eq: "s_name i = s_name j"
  from eq have "str_nat (nat i) @ CHR '']'' # ('' | b['' @ str_nat (nat i) @ ''])'')
      = str_nat (nat j) @ CHR '']'' # ('' | b['' @ str_nat (nat j) @ ''])'')"
    using i j by (simp add: s_name_def str_int_nonneg)
  from append_eq_sep [OF str_nat_no_bracket str_nat_no_bracket this]
  have "nat i = nat j" by (auto dest: str_nat_inj)
  with i j show ?thesis by simp
qed

lemma p_name_neq_s_name: "0 \<le> i \<Longrightarrow> 0 \<le> j \<Longrightarrow> p_name i \<noteq> s_name j"
proof
  assume i: "0 \<le> i" and j: "0 \<le> j" and eq: "p_name i = s_name j"
  from eq have "str_nat (nat i) @ CHR '']'' # ('' & b['' @ str_nat (nat i) @ ''])'')
      = str_nat (nat j) @ CHR '']'' # ('' | b['' @ str_nat (nat j) @ ''])'')"
    using i j by (simp add: p_name_def s_name_def str_int_nonneg)
  from append_eq_sep [OF str_nat_no_bracket str_nat_no_bracket this]
  show False by simp
qed

section \<open>The construction phase\<close>

lemma range_list_Cons: "a < b \<Longrightarrow> range_list a b = a # range_list (a + 1) b"
  by (simp add: range_list_def upto_rec1)

lemma range_list_Nil: "b \<le> a \<Longrightarrow> range_list a b = []"
  by (simp add: range_list_def)

lemma length_range_list: "length (range_list a b) = nat (b - a)"
  by (simp add: range_list_def)

lemma nth_range_list: "0 \<le> k \<Longrightarrow> a + k < b \<Longrightarrow> range_list a b ! nat k = a + k"
  by (simp add: range_list_def)

lemma getitem_nth: "0 \<le> i \<Longrightarrow> i < int (length xs) \<Longrightarrow> getitem xs i = Inr (xs ! nat i)"
  by (simp add: getitem_def)

lemma build_loop_range:
  assumes "length (c st) = nat a" and "1 \<le> a" and "a \<le> b"
    and "b \<le> int (length (p st))" and "b \<le> int (length (s st))"
  shows "\<exists>st'. build_loop (range_list a b) st = Inr st'
           \<and> p st' = p st \<and> s st' = s st \<and> stdout st' = stdout st
           \<and> length (c st') = nat b
           \<and> take (nat a) (c st') = c st
           \<and> (\<forall>i. a \<le> i \<and> i < b \<longrightarrow>
                  c st' ! nat i = Or [p st ! nat i, And [s st ! nat i, c st' ! nat (i - 1)]])"
  using assms
proof (induction "nat (b - a)" arbitrary: a st)
  case 0
  then have "a = b" by simp
  with 0 show ?case by (auto simp: range_list_Nil)
next
  case (Suc n)
  then have ab: "a < b" by linarith
  define new where "new = Or [p st ! nat a, And [s st ! nat a, c st ! nat (a - 1)]]"
  define st1 where "st1 = st\<lparr>c := c st @ [new]\<rparr>"
  have step: "build_loop (range_list a b) st = build_loop (range_list (a + 1) b) st1"
    using ab Suc.prems
    by (simp add: range_list_Cons getitem_nth st1_def new_def)
  have n: "n = nat (b - (a + 1))" using Suc.hyps(2) by linarith
  have len1: "length (c st1) = nat (a + 1)"
    using Suc.prems by (simp add: st1_def nat_add_distrib)
  from Suc.hyps(1) [OF n len1] ab Suc.prems
  obtain st' where r: "build_loop (range_list (a + 1) b) st1 = Inr st'"
    and keep: "p st' = p st1" "s st' = s st1" "stdout st' = stdout st1"
    and len: "length (c st') = nat b"
    and pre: "take (nat (a + 1)) (c st') = c st1"
    and rec: "\<forall>i. a + 1 \<le> i \<and> i < b \<longrightarrow>
                  c st' ! nat i = Or [p st1 ! nat i, And [s st1 ! nat i, c st' ! nat (i - 1)]]"
    by (auto simp: st1_def)
  define ext where "ext = drop (nat (a + 1)) (c st')"
  have pre1: "c st' = c st @ new # ext"
    using pre append_take_drop_id [of "nat (a + 1)" "c st'"] by (simp add: st1_def ext_def)
  have la: "length (c st) = nat a" by (rule Suc.prems(1))
  have pre0: "take (nat a) (c st') = c st"
    by (simp add: pre1 la)
  have at_a: "c st' ! nat a = new"
    by (simp add: pre1 nth_append la)
  have below: "c st' ! nat (a - 1) = c st ! nat (a - 1)"
    using Suc.prems(2) by (simp add: pre1 nth_append la)
  have "c st' ! nat i = Or [p st ! nat i, And [s st ! nat i, c st' ! nat (i - 1)]]"
    if "a \<le> i \<and> i < b" for i
  proof (cases "i = a")
    case True
    then show ?thesis using at_a below by (simp add: new_def)
  next
    case False
    with that rec show ?thesis by (simp add: st1_def)
  qed
  with r keep len pre0 step show ?case by (simp add: st1_def)
qed

lemma p_after_assign: "p (assign_s (assign_p st)) = map (\<lambda>i. Symbol (p_name i)) (range_list 0 32)"
  by (simp add: assign_s_def assign_p_def)

lemma build_result:
  "\<exists>st. build st0 = Inr st
      \<and> p st = map (\<lambda>i. Symbol (p_name i)) (range_list 0 32)
      \<and> s st = map (\<lambda>i. Symbol (s_name i)) (range_list 0 32)
      \<and> stdout st = stdout st0
      \<and> length (c st) = 32
      \<and> c st ! 0 = p st ! 0
      \<and> (\<forall>i. 1 \<le> i \<and> i < 32 \<longrightarrow>
             c st ! nat i = Or [p st ! nat i, And [s st ! nat i, c st ! nat (i - 1)]])"
proof -
  define st1 where "st1 = assign_s (assign_p st0)"
  define st2 where "st2 = st1\<lparr>c := [p st1 ! 0]\<rparr>"
  have p1: "p st1 = map (\<lambda>i. Symbol (p_name i)) (range_list 0 32)"
    and s1: "s st1 = map (\<lambda>i. Symbol (s_name i)) (range_list 0 32)"
    and o1: "stdout st1 = stdout st0"
    by (simp_all add: st1_def assign_s_def assign_p_def)
  have lp: "length (p st1) = 32" and ls: "length (s st1) = 32"
    by (simp_all add: p1 s1 length_range_list)
  have a: "assign_c st1 = Inr st2"
    using getitem_nth [of 0 "p st1"] by (simp add: assign_c_def st2_def lp)
  have b: "build st0 = build_loop (range_list 1 32) st2"
    using a by (simp add: build_def st1_def)
  have "length (c st2) = nat 1" "(1::int) \<le> 1" "(1::int) \<le> 32"
    "32 \<le> int (length (p st2))" "32 \<le> int (length (s st2))"
    by (simp_all add: st2_def lp ls)
  from build_loop_range [OF this]
  obtain st where r: "build_loop (range_list 1 32) st2 = Inr st"
    and keep: "p st = p st2" "s st = s st2" "stdout st = stdout st2"
    and len: "length (c st) = nat 32"
    and pre: "take (nat 1) (c st) = c st2"
    and rec: "\<forall>i. 1 \<le> i \<and> i < 32 \<longrightarrow>
                  c st ! nat i = Or [p st2 ! nat i, And [s st2 ! nat i, c st ! nat (i - 1)]]"
    by blast
  have "c st ! 0 = p st1 ! 0"
  proof -
    have "take (nat 1) (c st) ! 0 = c st ! 0" by simp
    then show ?thesis unfolding pre by (simp add: st2_def)
  qed
  with r keep len rec b p1 s1 o1 show ?thesis
    by (simp add: st2_def)
qed

text \<open>What the construction phase establishes, with the indices as naturals.\<close>

lemma build_facts:
  "\<exists>st. build st0 = Inr st
      \<and> stdout st = stdout st0
      \<and> length (p st) = 32 \<and> length (s st) = 32 \<and> length (c st) = 32
      \<and> (\<forall>i. i < 32 \<longrightarrow> p st ! i = Symbol (p_name (int i)))
      \<and> (\<forall>i. i < 32 \<longrightarrow> s st ! i = Symbol (s_name (int i)))
      \<and> c st ! 0 = Symbol (p_name 0)
      \<and> (\<forall>i. i < 31 \<longrightarrow>
             c st ! Suc i = Or [Symbol (p_name (int (Suc i))),
                                And [Symbol (s_name (int (Suc i))), c st ! i]])"
proof -
  from build_result [of st0] obtain st where r: "build st0 = Inr st"
    and ps: "p st = map (\<lambda>i. Symbol (p_name i)) (range_list 0 32)"
    and ss: "s st = map (\<lambda>i. Symbol (s_name i)) (range_list 0 32)"
    and out: "stdout st = stdout st0"
    and len: "length (c st) = 32"
    and c0: "c st ! 0 = p st ! 0"
    and rec: "\<forall>i. 1 \<le> i \<and> i < 32 \<longrightarrow>
             c st ! nat i = Or [p st ! nat i, And [s st ! nat i, c st ! nat (i - 1)]]"
    by blast
  have pn: "p st ! i = Symbol (p_name (int i))" if "i < 32" for i
    using nth_range_list [of "int i" 0 32] that by (simp add: ps length_range_list)
  have sn: "s st ! i = Symbol (s_name (int i))" if "i < 32" for i
    using nth_range_list [of "int i" 0 32] that by (simp add: ss length_range_list)
  have "c st ! Suc i = Or [Symbol (p_name (int (Suc i))),
                           And [Symbol (s_name (int (Suc i))), c st ! i]]" if "i < 31" for i
  proof -
    have "nat (int (Suc i)) = Suc i" "nat (int (Suc i) - 1) = i" by simp_all
    moreover have "1 \<le> int (Suc i) \<and> int (Suc i) < 32" using that by simp
    ultimately have "c st ! Suc i = Or [p st ! Suc i, And [s st ! Suc i, c st ! i]]"
      using rec [rule_format, of "int (Suc i)"] by metis
    then show ?thesis using pn [of "Suc i"] sn [of "Suc i"] that by simp
  qed
  moreover have "c st ! 0 = Symbol (p_name 0)" using c0 pn [of 0] by simp
  moreover have "length (p st) = 32" "length (s st) = 32"
    by (simp_all add: ps ss length_range_list)
  ultimately show ?thesis using r out len pn sn by blast
qed

lemma carry_atoms:
  assumes c0: "c st ! 0 = Symbol (p_name 0)"
    and rec: "\<forall>i. i < 31 \<longrightarrow>
             c st ! Suc i = Or [Symbol (p_name (int (Suc i))),
                                And [Symbol (s_name (int (Suc i))), c st ! i]]"
  shows "i < 32 \<Longrightarrow>
     atoms (c st ! i) = (\<lambda>j. p_name (int j)) ` {0..i} \<union> (\<lambda>j. s_name (int j)) ` {1..i}"
proof (induction i)
  case 0
  then show ?case by (simp add: c0)
next
  case (Suc i)
  then have ih: "atoms (c st ! i) = (\<lambda>j. p_name (int j)) ` {0..i} \<union> (\<lambda>j. s_name (int j)) ` {1..i}"
    and i: "i < 31" by simp_all
  have ne: "atoms (c st ! i) \<noteq> {}" by (simp add: ih)
  then have nf: "c st ! i \<noteq> BooleanFalse" by auto
  let ?a = "And [Symbol (s_name (int (Suc i))), c st ! i]"
  have a: "atoms ?a = {s_name (int (Suc i))} \<union> atoms (c st ! i)"
    using nf by (subst atoms_And) auto
  then have "?a \<noteq> BooleanTrue" by auto
  then have "atoms (Or [Symbol (p_name (int (Suc i))), ?a])
      = {p_name (int (Suc i))} \<union> atoms ?a"
    by (subst atoms_Or) auto
  moreover have "{0..Suc i} = insert (Suc i) {0..i}" "{1..Suc i} = insert (Suc i) {1..i}"
    by auto
  ultimately show ?case using rec [rule_format, OF i] a ih by (simp del: of_nat_Suc)
qed

lemma build_loop_prefix: "build_loop ixs st = Inr st' \<Longrightarrow> prefix (c st) (c st')"
proof (induction ixs arbitrary: st)
  case Nil
  then show ?case by simp
next
  case (Cons i ixs)
  from Cons.prems obtain e where "build_loop ixs (st\<lparr>c := c st @ [e]\<rparr>) = Inr st'"
    by (auto split: sum.splits)
  from Cons.IH [OF this] show ?case by (auto elim: append_prefixD)
qed

lemma print_loop_frame:
  "print_loop ixs st = Inr st' \<Longrightarrow> c st' = c st \<and> p st' = p st \<and> s st' = s st"
proof (induction ixs arbitrary: st)
  case Nil
  then show ?case by simp
next
  case (Cons i ixs)
  from Cons.prems obtain e where "print_loop ixs (print e st) = Inr st'"
    by (auto split: sum.splits)
  from Cons.IH [OF this] show ?case by (simp add: print_def)
qed

section \<open>The print loop\<close>

lemma splitlines_line: "newline \<notin> set l \<Longrightarrow> splitlines (l @ newline # rest) = l # splitlines rest"
  by (induction l) auto

lemma splitlines_concat:
  "(\<And>l. l \<in> set ls \<Longrightarrow> newline \<notin> set l) \<Longrightarrow>
     splitlines (concat (map (\<lambda>l. l @ [newline]) ls)) = ls"
  by (induction ls) (simp_all add: splitlines_line)

lemma print_loop_result:
  "(\<And>i. i \<in> set ixs \<Longrightarrow> 0 \<le> i \<and> i < int (length (c st))) \<Longrightarrow>
     print_loop ixs st =
       Inr (st\<lparr>stdout := stdout st @
              concat (map (\<lambda>i. format_line i (to_dnf (c st ! nat i)) @ [newline]) ixs)\<rparr>)"
proof (induction ixs arbitrary: st)
  case Nil
  then show ?case by simp
next
  case (Cons i ixs)
  have i: "0 \<le> i" "i < int (length (c st))" using Cons.prems by auto
  let ?st = "print (format_line i (to_dnf (c st ! nat i))) st"
  have c: "c ?st = c st" by (simp add: print_def)
  have "print_loop ixs ?st = Inr (?st\<lparr>stdout := stdout ?st @
              concat (map (\<lambda>i. format_line i (to_dnf (c ?st ! nat i)) @ [newline]) ixs)\<rparr>)"
    by (rule Cons.IH) (use Cons.prems c in auto)
  then show ?case using i by (simp add: getitem_nth c) (simp add: print_def)
qed

lemma range_list_bounds: "i \<in> set (range_list a b) \<Longrightarrow> a \<le> i \<and> i < b"
  by (auto simp: range_list_def)

lemma program_result:
  "build st0 = Inr st \<Longrightarrow> length (c st) = 32 \<Longrightarrow>
     adder_derivation st0 =
       Inr (st\<lparr>stdout := stdout st @
              concat (map (\<lambda>i. format_line i (to_dnf (c st ! nat i)) @ [newline])
                (range_list 0 32))\<rparr>)"
  using print_loop_result [of "range_list 0 32" st]
  by (auto simp: adder_derivation_def dest: range_list_bounds)

lemma range_list_nat: "range_list 0 (int n) = map int [0..<n]"
proof (induction n)
  case 0
  then show ?case by (simp add: range_list_def)
next
  case (Suc n)
  have "range_list 0 (int (Suc n)) = [0..int n - 1] @ [int n]"
    using upto_rec2 [of 0 "int n"] by (simp add: range_list_def)
  with Suc show ?case by (simp add: range_list_def)
qed

lemma range_list_32: "range_list 0 32 = map int [0..<32]"
  using range_list_nat [of 32] by simp

lemma newline_not_digit: "is_digit ch \<Longrightarrow> ch \<noteq> newline"
  by (auto simp: is_digit_def newline_def)

lemma newline_str_nat: "newline \<notin> set (str_nat n)"
  using str_nat_digits newline_not_digit by blast

lemma newline_p_name: "0 \<le> i \<Longrightarrow> newline \<notin> set (p_name i)"
  using newline_str_nat [of "nat i"] by (simp add: p_name_def str_int_nonneg) (simp add: newline_def)

lemma newline_s_name: "0 \<le> i \<Longrightarrow> newline \<notin> set (s_name i)"
  using newline_str_nat [of "nat i"] by (simp add: s_name_def str_int_nonneg) (simp add: newline_def)

lemma newline_format_line:
  "0 \<le> i \<Longrightarrow> newline \<notin> set (str e) \<Longrightarrow> newline \<notin> set (format_line i e)"
  using newline_str_nat [of "nat i"] by (simp add: format_line_def str_int_nonneg) (simp add: newline_def)

lemma output_lines:
  "\<exists>st1 st. build st0 = Inr st1 \<and> adder_derivation st0 = Inr st
      \<and> c st = c st1 \<and> p st = p st1 \<and> s st = s st1
      \<and> stdout st = stdout st0 @ unlines (carry_lines st1)
      \<and> splitlines (unlines (carry_lines st1)) = carry_lines st1"
proof -
  from build_facts [of st0] obtain st1 where r: "build st0 = Inr st1"
    and out: "stdout st1 = stdout st0" and len: "length (c st1) = 32"
    and c0: "c st1 ! 0 = Symbol (p_name 0)"
    and rec: "\<forall>i. i < 31 \<longrightarrow>
             c st1 ! Suc i = Or [Symbol (p_name (int (Suc i))),
                                And [Symbol (s_name (int (Suc i))), c st1 ! i]]"
    by blast
  define st where "st = st1\<lparr>stdout := stdout st1 @ unlines (carry_lines st1)\<rparr>"
  have "adder_derivation st0 = Inr st"
    using program_result [OF r len]
    by (simp add: range_list_32 st_def comp_def unlines_def carry_lines_def del: upt.simps)
  moreover have "newline \<notin> set l" if "l \<in> set (carry_lines st1)" for l
  proof -
    from that obtain i where i: "i < 32" and l: "l = format_line (int i) (to_dnf (c st1 ! i))"
      by (auto simp: carry_lines_def)
    have "newline \<notin> set n" if "n \<in> atoms (to_dnf (c st1 ! i))" for n
    proof -
      from that atoms_to_dnf have "n \<in> atoms (c st1 ! i)" by blast
      then show ?thesis
        using carry_atoms [OF c0 rec i] newline_p_name newline_s_name by auto
    qed
    then have "newline \<notin> set (str (to_dnf (c st1 ! i)))" by (rule newline_str)
    then show ?thesis unfolding l by (intro newline_format_line) simp_all
  qed
  then have "splitlines (unlines (carry_lines st1)) = carry_lines st1"
    unfolding unlines_def by (rule splitlines_concat)
  ultimately show ?thesis using r out by (auto simp: st_def)
qed

lemma length_carry_lines: "length (carry_lines st) = 32"
  by (simp add: carry_lines_def)

lemma nth_carry_lines:
  "i < 32 \<Longrightarrow> carry_lines st ! i = format_line (int i) (to_dnf (c st ! i))"
  by (simp add: carry_lines_def del: upt.simps)

lemma nth_p_build:
  "p st = map (\<lambda>i. Symbol (p_name i)) (range_list 0 32) \<Longrightarrow> i < 32 \<Longrightarrow>
     p st ! i = Symbol (p_name (int i))"
  using nth_range_list [of "int i" 0 32] by (simp add: length_range_list)

lemma nth_s_build:
  "s st = map (\<lambda>i. Symbol (s_name i)) (range_list 0 32) \<Longrightarrow> i < 32 \<Longrightarrow>
     s st ! i = Symbol (s_name (int i))"
  using nth_range_list [of "int i" 0 32] by (simp add: length_range_list)

lemma str_nat_nonempty: "str_nat n \<noteq> []"
  by (subst str_nat.simps) simp

lemma takeWhile_all: "(\<And>x. x \<in> set xs \<Longrightarrow> P x) \<Longrightarrow> \<not> P y \<Longrightarrow> takeWhile P (xs @ y # ys) = xs"
  by (induction xs) auto

lemma line_index_format_line: "line_index (format_line (int i) e) = Some i"
proof -
  let ?rest = "'' = '' @ str e @ '';''"
  let ?l = "format_line (int i) e"
  have l: "?l = ''    assign c['' @ str_nat i @ CHR '']'' # ?rest"
    by (simp add: format_line_def str_int_nonneg)
  have t: "take 13 ?l = ''    assign c[''" by (simp add: l)
  have "\<not> is_digit CHR '']''" by (simp add: is_digit_def)
  then have "takeWhile is_digit (str_nat i @ CHR '']'' # ?rest) = str_nat i"
    using str_nat_digits by (intro takeWhile_all) auto
  moreover have "drop 13 ?l = str_nat i @ CHR '']'' # ?rest" by (simp add: l)
  ultimately have ds: "takeWhile is_digit (drop 13 ?l) = str_nat i" by simp
  have "?l = (''    assign c['' @ str_nat i) @ CHR '']'' # ?rest"
    by (simp add: l)
  moreover have "length (''    assign c['' @ str_nat i) = 13 + length (str_nat i)" by simp
  ultimately have "drop (13 + length (str_nat i)) ?l = CHR '']'' # ?rest"
    by (metis append_eq_conv_conj)
  then have b: "take 1 (drop (13 + length (str_nat i)) ?l) = '']''" by simp
  have "line_index ?l =
      (if take 13 ?l = ''    assign c['' \<and> str_nat i \<noteq> []
          \<and> take 1 (drop (13 + length (str_nat i)) ?l) = '']''
       then Some (int_of_digits (str_nat i)) else None)"
    by (simp only: line_index_def Let_def ds)
  also have "\<dots> = Some i"
    by (simp only: t b str_nat_nonempty int_of_digits_str_nat) simp
  finally show ?thesis .
qed

lemma sublist_format_line: "sublist (''c['' @ str_int (int i) @ '']'') (format_line (int i) e)"
proof -
  have "format_line (int i) e
      = ''    assign '' @ (''c['' @ str_int (int i) @ '']'') @ ('' = '' @ str e @ '';'')"
    by (simp add: format_line_def)
  then show ?thesis unfolding sublist_def by blast
qed

lemma p_name_inj_nat:
  assumes "p_name (int i) = p_name (int j)"
  shows "i = j"
proof -
  have "int i = int j" by (rule p_name_inj [OF _ _ assms]) simp_all
  then show ?thesis by (simp only: of_nat_eq_iff)
qed

lemma s_name_inj_nat:
  assumes "s_name (int i) = s_name (int j)"
  shows "i = j"
proof -
  have "int i = int j" by (rule s_name_inj [OF _ _ assms]) simp_all
  then show ?thesis by (simp only: of_nat_eq_iff)
qed

lemma s_name_neq_p_name_nat: "s_name (int j) \<noteq> p_name (int i)"
  using p_name_neq_s_name [of "int i" "int j"] by simp

lemma find_Some_mem: "find P xs = Some y \<Longrightarrow> P y \<and> y \<in> set xs"
  by (induction xs) (simp_all split: if_splits)

lemma find_unique:
  assumes "x \<in> set xs" and "P x" and "\<And>y. y \<in> set xs \<Longrightarrow> P y \<Longrightarrow> y = x"
  shows "find P xs = Some x"
proof (cases "find P xs")
  case None
  with assms(1,2) show ?thesis by (simp add: find_None_iff)
next
  case (Some y)
  then have "P y \<and> y \<in> set xs" by (rule find_Some_mem)
  then have "y = x" using assms(3) by blast
  with Some show ?thesis by simp
qed

lemma find_p_name: "j < n \<Longrightarrow> find (\<lambda>k. p_name (int j) = p_name (int k)) [0..<n] = Some j"
proof (rule find_unique)
  show "j < n \<Longrightarrow> j \<in> set [0..<n]" by simp
  show "p_name (int j) = p_name (int j)" by (rule refl)
  show "y = j" if "p_name (int j) = p_name (int y)" for y
    using p_name_inj_nat [OF that] by (rule sym)
qed

lemma find_s_name: "j < n \<Longrightarrow> find (\<lambda>k. s_name (int j) = s_name (int k)) [0..<n] = Some j"
proof (rule find_unique)
  show "j < n \<Longrightarrow> j \<in> set [0..<n]" by simp
  show "s_name (int j) = s_name (int j)" by (rule refl)
  show "y = j" if "s_name (int j) = s_name (int y)" for y
    using s_name_inj_nat [OF that] by (rule sym)
qed

lemma find_s_p_name: "find (\<lambda>k. s_name (int j) = p_name (int k)) xs = None"
proof (induction xs)
  case Nil
  show ?case by (simp only: find.simps)
next
  case (Cons x xs)
  have "\<not> (s_name (int j) = p_name (int x))" by (rule s_name_neq_p_name_nat)
  then show ?case using Cons by (simp only: find.simps if_False)
qed

lemma interp_p_name: "j < 32 \<Longrightarrow> interp a b (p_name (int j)) = (a j \<and> b j)"
  unfolding interp_def by (simp only: find_p_name option.case)

lemma interp_s_name: "j < 32 \<Longrightarrow> interp a b (s_name (int j)) = (a j \<or> b j)"
  unfolding interp_def by (simp only: find_s_p_name find_s_name option.case)

lemma carry_eval:
  assumes c0: "c st ! 0 = Symbol (p_name 0)"
    and rec: "\<forall>i. i < 31 \<longrightarrow>
             c st ! Suc i = Or [Symbol (p_name (int (Suc i))),
                                And [Symbol (s_name (int (Suc i))), c st ! i]]"
  shows "i < 32 \<Longrightarrow> eval_expr (interp a b) (c st ! i) = carry_spec a b i"
proof (induction i)
  case 0
  then show ?case using interp_p_name [of 0 a b] by (simp add: c0)
next
  case (Suc i)
  then have i: "i < 31" and ih: "eval_expr (interp a b) (c st ! i) = carry_spec a b i"
    by simp_all
  show ?case
    using interp_p_name [OF Suc.prems, of a b] interp_s_name [OF Suc.prems, of a b] ih
    by (simp add: rec [rule_format, OF i] eval_Or eval_And del: of_nat_Suc)
qed

lemma to_dnf_Symbol: "to_dnf (Symbol n) = Symbol n"
  by (simp add: to_dnf_def)

lemma p_name_0: "p_name 0 = ''(a[0] & b[0])''"
  by code_simp

section \<open>The disjunctive normal form of the carries\<close>

lemma enc_no_zero: "0 \<notin> set (map (\<lambda>ch. Suc (of_char ch)) n)"
  by auto

lemma enc_inj: "map (\<lambda>ch. Suc (of_char ch :: nat)) n = map (\<lambda>ch. Suc (of_char ch)) m \<Longrightarrow> n = m"
proof (induction n arbitrary: m)
  case Nil
  then show ?case by simp
next
  case (Cons a n)
  then show ?case by (cases m) auto
qed

lemma concat_keys_prefix_free:
  assumes ih: "\<And>x y r r'. x \<in> set xs \<Longrightarrow>
      default_sort_key x @ r = default_sort_key y @ r' \<Longrightarrow> x = y \<and> r = r'"
    and len: "length xs = length ys"
    and eq: "concat (map default_sort_key xs) @ r = concat (map default_sort_key ys) @ r'"
  shows "xs = ys \<and> r = r'"
  using len ih eq
proof (induction xs ys rule: list_induct2)
  case Nil
  then show ?case by simp
next
  case (Cons x xs y ys)
  from Cons.prems(2) have
    "default_sort_key x @ (concat (map default_sort_key xs) @ r)
       = default_sort_key y @ (concat (map default_sort_key ys) @ r')"
    by simp
  from Cons.prems(1) [OF _ this] have xy: "x = y"
    and rest: "concat (map default_sort_key xs) @ r = concat (map default_sort_key ys) @ r'"
    by simp_all
  have "xs = ys \<and> r = r'"
  proof (rule Cons.IH)
    show "x = y \<and> r = r'" if "x \<in> set xs"
      and "default_sort_key x @ r = default_sort_key y @ r'" for x y r r'
      using that Cons.prems(1) [of x r y r'] by simp
  qed (rule rest)
  with xy show ?case by simp
qed

lemma sort_key_prefix_free:
  "default_sort_key x @ r = default_sort_key y @ r' \<Longrightarrow> x = y \<and> r = r'"
proof (induction x arbitrary: y r r')
  case (Symbol n)
  show ?case
  proof (cases y)
    case (Symbol m)
    with Symbol.prems have
      "map (\<lambda>ch. Suc (of_char ch)) n @ 0 # r = map (\<lambda>ch. Suc (of_char ch)) m @ 0 # r'"
      by simp
    from append_eq_sep [OF enc_no_zero enc_no_zero this] show ?thesis
      using Symbol by (auto dest: enc_inj)
  qed (use Symbol.prems in simp_all)
next
  case (AndArgs xs)
  show ?case
  proof (cases y)
    case y: (AndArgs ys)
    with AndArgs.prems have len: "length xs = length ys"
      and eq: "concat (map default_sort_key xs) @ r = concat (map default_sort_key ys) @ r'"
      by simp_all
    from concat_keys_prefix_free [OF AndArgs.IH len eq] show ?thesis by (simp add: y)
  qed (use AndArgs.prems in simp_all)
next
  case (OrArgs xs)
  show ?case
  proof (cases y)
    case y: (OrArgs ys)
    with OrArgs.prems have len: "length xs = length ys"
      and eq: "concat (map default_sort_key xs) @ r = concat (map default_sort_key ys) @ r'"
      by simp_all
    from concat_keys_prefix_free [OF OrArgs.IH len eq] show ?thesis by (simp add: y)
  qed (use OrArgs.prems in simp_all)
next
  case BooleanTrue
  then show ?case by (cases y) simp_all
next
  case BooleanFalse
  then show ?case by (cases y) simp_all
qed

lemma inj_default_sort_key: "inj default_sort_key"
proof (rule injI)
  fix x y assume "default_sort_key x = default_sort_key y"
  then have "default_sort_key x @ [] = default_sort_key y @ []" by simp
  from sort_key_prefix_free [OF this] show "x = y" by simp
qed

lemma ordered_set_unique:
  assumes "set xs = set ys"
  shows "ordered (remdups xs) = ordered (remdups ys)"
proof -
  let ?k = default_sort_key
  have d: "distinct (map ?k (ordered (remdups zs)))" for zs
    by (simp add: distinct_map ordered_def inj_on_subset [OF inj_default_sort_key])
  have s: "sorted (map ?k (ordered (remdups zs)))" for zs
    by (simp add: ordered_def)
  have "set (map ?k (ordered (remdups xs))) = set (map ?k (ordered (remdups ys)))"
    using assms by simp
  then have "map ?k (ordered (remdups xs)) = map ?k (ordered (remdups ys))"
    using d s by (intro sorted_distinct_set_unique) auto
  then show ?thesis by (simp add: inj_map_eq_map [OF inj_default_sort_key])
qed

lemma ordered_Nil [simp]: "ordered [] = []"
  by (simp add: ordered_def)

lemma ordered_single [simp]: "ordered [x] = [x]"
  by (simp add: ordered_def)

lemma length_ordered [simp]: "length (ordered xs) = length xs"
  by (simp add: ordered_def)

lemma distinct_ordered [simp]: "distinct (ordered xs) = distinct xs"
  by (simp add: ordered_def)

lemma And_alt:
  "And xs = (case And_new_args_filter xs of None \<Rightarrow> BooleanFalse | Some ys \<Rightarrow> And_node ys)"
proof (cases "And_new_args_filter xs")
  case None
  then show ?thesis by (simp add: And_def)
next
  case (Some ys)
  show ?thesis
  proof (cases "remdups ys")
    case Nil
    then show ?thesis by (simp add: And_def Some And_node_def)
  next
    case (Cons a as)
    show ?thesis
    proof (cases as)
      case Nil
      with Cons show ?thesis by (simp add: And_def Some And_node_def)
    next
      case (Cons b bs)
      have "length (ordered (a # b # bs)) = Suc (Suc (length bs))" by simp
      then obtain a' b' bs' where "ordered (a # b # bs) = a' # b' # bs'"
        by (metis length_Suc_conv)
      with Cons \<open>remdups ys = a # as\<close> show ?thesis
        by (simp add: And_def Some And_node_def)
    qed
  qed
qed

lemma Or_alt:
  "Or xs = (case Or_new_args_filter xs of None \<Rightarrow> BooleanTrue | Some ys \<Rightarrow> Or_node ys)"
proof (cases "Or_new_args_filter xs")
  case None
  then show ?thesis by (simp add: Or_def)
next
  case (Some ys)
  show ?thesis
  proof (cases "remdups ys")
    case Nil
    then show ?thesis by (simp add: Or_def Some Or_node_def)
  next
    case (Cons a as)
    show ?thesis
    proof (cases as)
      case Nil
      with Cons show ?thesis by (simp add: Or_def Some Or_node_def)
    next
      case (Cons b bs)
      have "length (ordered (a # b # bs)) = Suc (Suc (length bs))" by simp
      then obtain a' b' bs' where "ordered (a # b # bs) = a' # b' # bs'"
        by (metis length_Suc_conv)
      with Cons \<open>remdups ys = a # as\<close> show ?thesis
        by (simp add: Or_def Some Or_node_def)
    qed
  qed
qed

lemma And_node_cong: "set xs = set ys \<Longrightarrow> And_node xs = And_node ys"
  by (simp add: And_node_def ordered_set_unique [of xs ys])

lemma Or_node_cong: "set xs = set ys \<Longrightarrow> Or_node xs = Or_node ys"
  by (simp add: Or_node_def ordered_set_unique [of xs ys])

lemma And_filter_flat:
  "BooleanFalse \<notin> set xs \<Longrightarrow> And_new_args_filter xs = Some (concat (map and_flat xs))"
  by (induction xs) (auto simp: and_flat_def)

lemma Or_filter_flat:
  "BooleanTrue \<notin> set xs \<Longrightarrow> Or_new_args_filter xs = Some (concat (map or_flat xs))"
  by (induction xs) (auto simp: or_flat_def)

lemma And_flat: "BooleanFalse \<notin> set xs \<Longrightarrow> And xs = And_node (concat (map and_flat xs))"
  by (simp add: And_alt And_filter_flat)

lemma Or_flat: "BooleanTrue \<notin> set xs \<Longrightarrow> Or xs = Or_node (concat (map or_flat xs))"
  by (simp add: Or_alt Or_filter_flat)

lemma And_cong: "set xs = set ys \<Longrightarrow> And xs = And ys"
proof (cases "BooleanFalse \<in> set xs")
  case True
  assume "set xs = set ys"
  with True show ?thesis using And_filter_None [of xs] And_filter_None [of ys] by (simp add: And_alt)
next
  case False
  assume eq: "set xs = set ys"
  with False have "BooleanFalse \<notin> set ys" by simp
  moreover have "set (concat (map and_flat xs)) = set (concat (map and_flat ys))"
    using eq by simp
  ultimately show ?thesis using False by (simp add: And_flat And_node_cong)
qed

lemma Or_cong: "set xs = set ys \<Longrightarrow> Or xs = Or ys"
proof (cases "BooleanTrue \<in> set xs")
  case True
  assume "set xs = set ys"
  with True show ?thesis using Or_filter_None [of xs] Or_filter_None [of ys] by (simp add: Or_alt)
next
  case False
  assume eq: "set xs = set ys"
  with False have "BooleanTrue \<notin> set ys" by simp
  moreover have "set (concat (map or_flat xs)) = set (concat (map or_flat ys))"
    using eq by simp
  ultimately show ?thesis using False by (simp add: Or_flat Or_node_cong)
qed

lemma and_flat_plain: "and_plain x \<Longrightarrow> and_flat x = [x]"
  by (simp add: and_flat_def and_plain_def)

lemma or_flat_plain: "or_plain x \<Longrightarrow> or_flat x = [x]"
  by (simp add: or_flat_def or_plain_def)

lemma concat_and_flat_plain: "(\<And>x. x \<in> set xs \<Longrightarrow> and_plain x) \<Longrightarrow> concat (map and_flat xs) = xs"
  by (induction xs) (simp_all add: and_flat_plain)

lemma concat_or_flat_plain: "(\<And>x. x \<in> set xs \<Longrightarrow> or_plain x) \<Longrightarrow> concat (map or_flat xs) = xs"
  by (induction xs) (simp_all add: or_flat_plain)

lemma And_plain: "(\<And>x. x \<in> set xs \<Longrightarrow> and_plain x) \<Longrightarrow> And xs = And_node xs"
proof -
  assume pl: "\<And>x. x \<in> set xs \<Longrightarrow> and_plain x"
  then have "BooleanFalse \<notin> set xs" by (auto simp: and_plain_def)
  then show ?thesis using pl by (simp add: And_flat concat_and_flat_plain)
qed

lemma Or_plain: "(\<And>x. x \<in> set xs \<Longrightarrow> or_plain x) \<Longrightarrow> Or xs = Or_node xs"
proof -
  assume pl: "\<And>x. x \<in> set xs \<Longrightarrow> or_plain x"
  then have "BooleanTrue \<notin> set xs" by (auto simp: or_plain_def)
  then show ?thesis using pl by (simp add: Or_flat concat_or_flat_plain)
qed

lemma node_cases:
  obtains "set ys = {}" and "ordered (remdups ys) = []"
  | y where "set ys = {y}" and "ordered (remdups ys) = [y]"
  | a b zs where "ordered (remdups ys) = a # b # zs"
proof (cases "ordered (remdups ys)")
  case Nil
  then have "set (ordered (remdups ys)) = {}" by simp
  then have "set ys = {}" by simp
  with Nil that(1) show ?thesis by blast
next
  case (Cons a as)
  show ?thesis
  proof (cases as)
    case Nil
    with Cons have "set (ordered (remdups ys)) = {a}" by simp
    then have "set ys = {a}" by simp
    with Cons Nil that(2) show ?thesis by blast
  next
    case (Cons b bs)
    with \<open>ordered (remdups ys) = a # as\<close> that(3) show ?thesis by blast
  qed
qed

lemma and_flat_And_node:
  assumes "\<And>x. x \<in> set ys \<Longrightarrow> and_plain x"
  shows "And_node ys \<noteq> BooleanFalse \<and> set (and_flat (And_node ys)) = set ys"
proof (cases ys rule: node_cases)
  case 1
  then show ?thesis by (simp add: And_node_def and_flat_def)
next
  case (2 y)
  then have "and_plain y" using assms by auto
  with 2 show ?thesis by (auto simp: And_node_def and_flat_plain and_plain_def)
next
  case (3 a b zs)
  have "set (ordered (remdups ys)) = set ys" by simp
  with 3 show ?thesis by (simp add: And_node_def and_flat_def)
qed

lemma or_flat_Or_node:
  assumes "\<And>x. x \<in> set ys \<Longrightarrow> or_plain x"
  shows "Or_node ys \<noteq> BooleanTrue \<and> set (or_flat (Or_node ys)) = set ys"
proof (cases ys rule: node_cases)
  case 1
  then show ?thesis by (simp add: Or_node_def or_flat_def)
next
  case (2 y)
  then have "or_plain y" using assms by auto
  with 2 show ?thesis by (auto simp: Or_node_def or_flat_plain or_plain_def)
next
  case (3 a b zs)
  have "set (ordered (remdups ys)) = set ys" by simp
  with 3 show ?thesis by (simp add: Or_node_def or_flat_def)
qed

lemma And_And:
  assumes "\<And>x. x \<in> set us \<Longrightarrow> and_plain x" and "\<And>x. x \<in> set ys \<Longrightarrow> and_plain x"
  shows "And [And us, And ys] = And (us @ ys)"
proof -
  have u: "And us = And_node us" and y: "And ys = And_node ys"
    using assms by (simp_all add: And_plain)
  have fu: "And_node us \<noteq> BooleanFalse" "set (and_flat (And_node us)) = set us"
    and fy: "And_node ys \<noteq> BooleanFalse" "set (and_flat (And_node ys)) = set ys"
    using and_flat_And_node [of us] and_flat_And_node [of ys] assms by auto
  have "And [And us, And ys] = And_node (and_flat (And_node us) @ and_flat (And_node ys))"
    using fu(1) fy(1) by (simp add: u y And_flat)
  also have "\<dots> = And_node (us @ ys)"
    by (rule And_node_cong) (simp add: fu(2) fy(2))
  also have "\<dots> = And (us @ ys)"
    using assms by (subst And_plain) auto
  finally show ?thesis .
qed

lemma Or_Or:
  assumes "\<And>x. x \<in> set us \<Longrightarrow> or_plain x" and "\<And>x. x \<in> set ys \<Longrightarrow> or_plain x"
  shows "Or [Or us, Or ys] = Or (us @ ys)"
proof -
  have u: "Or us = Or_node us" and y: "Or ys = Or_node ys"
    using assms by (simp_all add: Or_plain)
  have fu: "Or_node us \<noteq> BooleanTrue" "set (or_flat (Or_node us)) = set us"
    and fy: "Or_node ys \<noteq> BooleanTrue" "set (or_flat (Or_node ys)) = set ys"
    using or_flat_Or_node [of us] or_flat_Or_node [of ys] assms by auto
  have "Or [Or us, Or ys] = Or_node (or_flat (Or_node us) @ or_flat (Or_node ys))"
    using fu(1) fy(1) by (simp add: u y Or_flat)
  also have "\<dots> = Or_node (us @ ys)"
    by (rule Or_node_cong) (simp add: fu(2) fy(2))
  also have "\<dots> = Or (us @ ys)"
    using assms by (subst Or_plain) auto
  finally show ?thesis .
qed

lemma And_single: "and_plain x \<Longrightarrow> And [x] = x"
  using And_plain [of "[x]"] by (simp add: And_node_def)

lemma Or_single: "or_plain x \<Longrightarrow> Or [x] = x"
  using Or_plain [of "[x]"] by (simp add: Or_node_def)

lemma Symbol_plain: "is_Symbol x \<Longrightarrow> and_plain x \<and> or_plain x \<and> \<not> is_Or x \<and> \<not> is_And x"
  by (cases x) (simp_all add: and_plain_def or_plain_def)

lemma And_node_ge2:
  assumes "distinct ys" and "2 \<le> length ys"
  shows "And_node ys = AndArgs (ordered ys)"
proof -
  have "length (ordered ys) = length ys" by simp
  with assms(2) obtain a b zs where "ordered ys = a # b # zs"
    by (cases "ordered ys"; cases "tl (ordered ys)") auto
  then show ?thesis using assms(1) by (simp add: And_node_def distinct_remdups_id)
qed

lemma Or_node_ge2:
  assumes "distinct ys" and "2 \<le> length ys"
  shows "Or_node ys = OrArgs (ordered ys)"
proof -
  have "length (ordered ys) = length ys" by simp
  with assms(2) obtain a b zs where "ordered ys = a # b # zs"
    by (cases "ordered ys"; cases "tl (ordered ys)") auto
  then show ?thesis using assms(1) by (simp add: Or_node_def distinct_remdups_id)
qed

lemma And_pair: "and_plain x \<Longrightarrow> and_plain y \<Longrightarrow> x \<noteq> y \<Longrightarrow> And [x, y] = AndArgs (ordered [x, y])"
  using And_plain [of "[x, y]"] And_node_ge2 [of "[x, y]"] by auto

lemma Or_pair: "or_plain x \<Longrightarrow> or_plain y \<Longrightarrow> x \<noteq> y \<Longrightarrow> Or [x, y] = OrArgs (ordered [x, y])"
  using Or_plain [of "[x, y]"] Or_node_ge2 [of "[x, y]"] by auto

lemma carry_shape:
  assumes c0: "c st ! 0 = Symbol (p_name 0)"
    and rec: "\<forall>i. i < 31 \<longrightarrow>
             c st ! Suc i = Or [Symbol (p_name (int (Suc i))),
                                And [Symbol (s_name (int (Suc i))), c st ! i]]"
  shows "i < 32 \<Longrightarrow> (is_Symbol (c st ! i) \<or> is_Or (c st ! i))
      \<and> (\<forall>k. i = Suc k \<longrightarrow>
            And [Symbol (s_name (int i)), c st ! k]
              = AndArgs (ordered [Symbol (s_name (int i)), c st ! k])
          \<and> c st ! i = OrArgs (ordered [Symbol (p_name (int i)),
                AndArgs (ordered [Symbol (s_name (int i)), c st ! k])]))"
proof (induction i)
  case 0
  then show ?case by (simp add: c0)
next
  case (Suc k)
  then have k: "k < 31" and ih: "is_Symbol (c st ! k) \<or> is_Or (c st ! k)" by simp_all
  let ?S = "Symbol (s_name (int (Suc k)))" and ?P = "Symbol (p_name (int (Suc k)))"
  have pl: "and_plain (c st ! k)" using ih by (cases "c st ! k") (simp_all add: and_plain_def)
  have "s_name (int (Suc k)) \<notin> atoms (c st ! k)"
  proof
    assume "s_name (int (Suc k)) \<in> atoms (c st ! k)"
    then have "s_name (int (Suc k)) \<in> (\<lambda>j. p_name (int j)) ` {0..k} \<union> (\<lambda>j. s_name (int j)) ` {1..k}"
      using carry_atoms [OF c0 rec, of k] k by simp
    then show False
      using s_name_neq_p_name_nat [of "Suc k"] s_name_inj_nat [of "Suc k"] by fastforce
  qed
  have ne: "?S \<noteq> c st ! k"
  proof
    assume "?S = c st ! k"
    then have "atoms (c st ! k) = {s_name (int (Suc k))}" by (metis atoms.simps(1))
    with \<open>s_name (int (Suc k)) \<notin> atoms (c st ! k)\<close> show False by blast
  qed
  have a: "And [?S, c st ! k] = AndArgs (ordered [?S, c st ! k])"
    using pl ne by (intro And_pair) (simp_all add: and_plain_def)
  have "Or [?P, AndArgs (ordered [?S, c st ! k])] = OrArgs (ordered [?P, AndArgs (ordered [?S, c st ! k])])"
    by (intro Or_pair) (simp_all add: or_plain_def)
  with a rec [rule_format, OF k] show ?case by simp
qed

lemma find_is_Or_None: "(\<And>x. x \<in> set xs \<Longrightarrow> \<not> is_Or x) \<Longrightarrow> find is_Or xs = None"
  by (simp add: find_None_iff)

lemma distribute_And_symbols:
  assumes "\<And>x. x \<in> set xs \<Longrightarrow> is_Symbol x"
  shows "distribute_or_over_and (And xs) = And xs"
proof -
  have "And xs = And_node xs" using assms by (intro And_plain) (simp add: Symbol_plain)
  moreover have "distribute_or_over_and (And_node xs) = And_node xs"
  proof (cases xs rule: node_cases)
    case 1
    then show ?thesis by (simp add: And_node_def)
  next
    case (2 y)
    then have "is_Symbol y" using assms by auto
    then obtain n where "y = Symbol n" by (cases y) simp_all
    with 2 show ?thesis by (simp add: And_node_def)
  next
    case (3 a b zs)
    have "set (ordered (remdups xs)) = set xs" by simp
    then have "find is_Or (a # b # zs) = None"
      unfolding 3 using assms by (intro find_is_Or_None) (metis Symbol_plain)
    with 3 show ?thesis by (simp add: And_node_def)
  qed
  ultimately show ?thesis by simp
qed

lemma And_symbols_or_plain:
  assumes "\<And>x. x \<in> set xs \<Longrightarrow> is_Symbol x" and "xs \<noteq> []"
  shows "or_plain (And xs)"
proof -
  have "And xs = And_node xs" using assms(1) by (intro And_plain) (simp add: Symbol_plain)
  moreover have "or_plain (And_node xs)"
  proof (cases xs rule: node_cases)
    case 1
    with assms(2) show ?thesis by simp
  next
    case (2 y)
    then have "is_Symbol y" using assms by auto
    with 2 show ?thesis by (simp add: And_node_def Symbol_plain)
  next
    case (3 a b zs)
    then show ?thesis by (simp add: And_node_def or_plain_def)
  qed
  ultimately show ?thesis by simp
qed

lemma distribute_step:
  assumes c0: "c st ! 0 = Symbol (p_name 0)"
    and rec: "\<forall>i. i < 31 \<longrightarrow>
             c st ! Suc i = Or [Symbol (p_name (int (Suc i))),
                                And [Symbol (s_name (int (Suc i))), c st ! i]]"
    and k: "k < 31"
    and G: "\<And>g. g \<in> set G \<Longrightarrow> is_Symbol g" and ne: "G \<noteq> []"
  shows "distribute_or_over_and (And (c st ! Suc k # G))
      = Or [And (Symbol (p_name (int (Suc k))) # G),
            distribute_or_over_and (And (c st ! k # Symbol (s_name (int (Suc k))) # G))]"
proof -
  let ?P = "Symbol (p_name (int (Suc k)))" and ?S = "Symbol (s_name (int (Suc k)))"
  let ?A = "AndArgs (ordered [?S, c st ! k])"
  let ?C = "c st ! Suc k"
  from carry_shape [OF c0 rec, of "Suc k"] k
  have A: "And [?S, c st ! k] = ?A" and C: "?C = OrArgs (ordered [?P, ?A])"
    by simp_all
  from carry_shape [OF c0 rec, of k] k have shape_k: "is_Symbol (c st ! k) \<or> is_Or (c st ! k)"
    by simp
  have plk: "and_plain (c st ! k)"
    using shape_k by (cases "c st ! k") (simp_all add: and_plain_def)
  have plG: "and_plain g" if "g \<in> set G" for g using G [OF that] by (simp add: Symbol_plain)
  have CG: "?C \<notin> set G" using G C by (metis is_Symbol.simps(3))
  have plC: "and_plain ?C" by (simp add: C and_plain_def)
  define R where "R = remdups (?C # G)"
  have setR: "set R = insert ?C (set G)" and dR: "distinct R"
    unfolding R_def by (simp_all only: set_remdups distinct_remdups list.set)
  define L where "L = ordered R"
  have setL: "set L = insert ?C (set G)" by (simp add: L_def setR)
  have "2 \<le> length R"
  proof -
    from ne obtain g where g: "g \<in> set G" by (cases G) auto
    with CG have "?C \<noteq> g" by blast
    then have "card {?C, g} = 2" by simp
    moreover have "card {?C, g} \<le> card (set R)"
      using g by (intro card_mono) (auto simp: setR)
    ultimately show ?thesis using distinct_card [OF dR] by simp
  qed
  with dR have "And_node R = AndArgs L"
    unfolding L_def by (rule And_node_ge2)
  moreover have "And_node R = And_node (?C # G)"
    by (rule And_node_cong) (simp add: setR)
  moreover have "And (?C # G) = And_node (?C # G)"
    using plC plG by (intro And_plain) auto
  ultimately have node: "And (?C # G) = AndArgs L" by simp
  have fnd: "find is_Or L = Some ?C"
  proof (rule find_unique)
    show "?C \<in> set L" by (simp add: setL)
    show "is_Or ?C" by (simp add: C)
    show "y = ?C" if "y \<in> set L" and "is_Or y" for y
      using that G setL by (auto simp: Symbol_plain)
  qed
  have "set (filter (\<lambda>a. a \<noteq> ?C) L) = set G" using CG by (auto simp: setL)
  then have rest: "And (filter (\<lambda>a. a \<noteq> ?C) L) = And G" by (rule And_cong)
  let ?f = "\<lambda>x. distribute_or_over_and (And [x, And G])"
  have "distribute_or_over_and (AndArgs L) = Or (map ?f (args ?C))"
    by (simp add: fnd rest)
  also have "\<dots> = Or [?f ?P, ?f ?A]"
    by (rule Or_cong) (simp add: C)
  also have "?f ?P = And (?P # G)"
  proof -
    have "And [?P, And G] = And [And [?P], And G]"
      by (simp add: And_single and_plain_def)
    also have "\<dots> = And ([?P] @ G)"
      using plG by (intro And_And) (auto simp: and_plain_def)
    finally have "And [?P, And G] = And (?P # G)" by simp
    moreover have "distribute_or_over_and (And (?P # G)) = And (?P # G)"
      using G by (intro distribute_And_symbols) auto
    ultimately show ?thesis by simp
  qed
  also have "?f ?A = distribute_or_over_and (And (c st ! k # ?S # G))"
  proof -
    have "And [?A, And G] = And [And [?S, c st ! k], And G]" by (simp only: A)
    also have "\<dots> = And ([?S, c st ! k] @ G)"
      using plG plk by (intro And_And) (auto simp: and_plain_def)
    also have "\<dots> = And (c st ! k # ?S # G)" by (rule And_cong) auto
    finally show ?thesis by simp
  qed
  finally show ?thesis by (simp only: node)
qed

lemma clause_gclause: "clause i j = gclause i [] j"
  by (simp add: clause_def clause_atoms_def gclause_def)

lemma gclause_or_plain: "(\<And>g. g \<in> set H \<Longrightarrow> is_Symbol g) \<Longrightarrow> or_plain (gclause n H j)"
  unfolding gclause_def by (intro And_symbols_or_plain) auto

lemma gclause_shift:
  "j \<le> k \<Longrightarrow> gclause k (Symbol (s_name (int (Suc k))) # G) j = gclause (Suc k) G j"
proof -
  assume "j \<le> k"
  then have "[j + 1..<Suc k + 1] = [j + 1..<k + 1] @ [Suc k]" by simp
  then show ?thesis unfolding gclause_def by (simp del: upt_Suc of_nat_Suc)
qed

lemma gclause_last: "gclause k G k = And (Symbol (p_name (int k)) # G)"
  by (simp add: gclause_def)

lemma map_gclause_shift:
  "map (gclause k (Symbol (s_name (int (Suc k))) # G)) [0..<k + 1] = map (gclause (Suc k) G) [0..<k + 1]"
  by (rule map_cong) (simp_all add: gclause_shift del: upt_Suc of_nat_Suc)

lemma upt_snoc: "[0..<Suc k + 1] = [0..<k + 1] @ [Suc k]"
  by simp

lemma distribute_closed:
  assumes c0: "c st ! 0 = Symbol (p_name 0)"
    and rec: "\<forall>i. i < 31 \<longrightarrow>
             c st ! Suc i = Or [Symbol (p_name (int (Suc i))),
                                And [Symbol (s_name (int (Suc i))), c st ! i]]"
  shows "k < 32 \<Longrightarrow> (\<And>g. g \<in> set G \<Longrightarrow> is_Symbol g) \<Longrightarrow> G \<noteq> [] \<Longrightarrow>
     distribute_or_over_and (And (c st ! k # G)) = Or (map (gclause k G) [0..<k + 1])"
proof (induction k arbitrary: G)
  case 0
  have sym: "is_Symbol x" if "x \<in> set (Symbol (p_name 0) # G)" for x
    using that "0.prems"(2) by auto
  have "distribute_or_over_and (And (Symbol (p_name 0) # G)) = And (Symbol (p_name 0) # G)"
    using sym by (rule distribute_And_symbols)
  moreover have "Or [And (Symbol (p_name 0) # G)] = And (Symbol (p_name 0) # G)"
    using sym by (intro Or_single And_symbols_or_plain) auto
  moreover have "gclause 0 G 0 = And (Symbol (p_name 0) # G)" by (simp add: gclause_def)
  ultimately show ?case by (simp add: c0)
next
  case (Suc k)
  then have k: "k < 31" by simp
  let ?P = "Symbol (p_name (int (Suc k)))" and ?S = "Symbol (s_name (int (Suc k)))"
  have symG: "is_Symbol g" if "g \<in> set (?S # G)" for g using that Suc.prems(2) by auto
  have ih: "distribute_or_over_and (And (c st ! k # ?S # G)) = Or (map (gclause k (?S # G)) [0..<k + 1])"
    using k symG by (intro Suc.IH) auto
  have d: "or_plain (And (?P # G))"
    using Suc.prems(2) by (intro And_symbols_or_plain) auto
  have pls: "or_plain x" if "x \<in> set (map (gclause (Suc k) G) [0..<k + 1])" for x
  proof -
    from that obtain j where "x = gclause (Suc k) G j" by (auto simp only: set_map)
    moreover have "or_plain (gclause (Suc k) G j)" using Suc.prems(2) by (rule gclause_or_plain)
    ultimately show ?thesis by simp
  qed
  have "distribute_or_over_and (And (c st ! Suc k # G))
      = Or [And (?P # G), distribute_or_over_and (And (c st ! k # ?S # G))]"
    by (rule distribute_step [OF c0 rec k Suc.prems(2,3)])
  also have "\<dots> = Or [Or [And (?P # G)], Or (map (gclause (Suc k) G) [0..<k + 1])]"
    using d by (simp only: ih map_gclause_shift Or_single)
  also have "\<dots> = Or ([And (?P # G)] @ map (gclause (Suc k) G) [0..<k + 1])"
  proof (rule Or_Or)
    show "or_plain x" if "x \<in> set [And (?P # G)]" for x using that d by simp
    show "or_plain x" if "x \<in> set (map (gclause (Suc k) G) [0..<k + 1])" for x
      using that by (rule pls)
  qed
  also have "\<dots> = Or (map (gclause (Suc k) G) [0..<Suc k + 1])"
  proof (rule Or_cong)
    show "set ([And (?P # G)] @ map (gclause (Suc k) G) [0..<k + 1])
        = set (map (gclause (Suc k) G) [0..<Suc k + 1])"
      unfolding upt_snoc map_append set_append
      by (simp only: gclause_last list.map list.set Un_commute)
  qed
  finally show ?case .
qed

lemma to_dnf_carry:
  assumes c0: "c st ! 0 = Symbol (p_name 0)"
    and rec: "\<forall>i. i < 31 \<longrightarrow>
             c st ! Suc i = Or [Symbol (p_name (int (Suc i))),
                                And [Symbol (s_name (int (Suc i))), c st ! i]]"
  shows "i < 32 \<Longrightarrow> to_dnf (c st ! i) = Or (map (clause i) [0..<i + 1])"
proof (cases i)
  case 0
  have "clause 0 0 = Symbol (p_name 0)" by (simp add: clause_def clause_atoms_def And_single and_plain_def)
  then show ?thesis by (simp add: 0 c0 to_dnf_Symbol Or_single or_plain_def)
next
  case (Suc k)
  assume "i < 32"
  with Suc have k: "k < 31" by simp
  let ?P = "Symbol (p_name (int (Suc k)))" and ?S = "Symbol (s_name (int (Suc k)))"
  let ?A = "AndArgs (ordered [?S, c st ! k])"
  let ?C = "c st ! Suc k"
  from carry_shape [OF c0 rec, of "Suc k"] k
  have A: "And [?S, c st ! k] = ?A" and C: "?C = OrArgs (ordered [?P, ?A])"
    by simp_all
  have cl: "clause (Suc k) = gclause (Suc k) []" by (rule ext) (rule clause_gclause)
  have dA: "distribute_or_over_and ?A = Or (map (gclause (Suc k) []) [0..<k + 1])"
  proof -
    have "?A = And (c st ! k # [?S])" unfolding A [symmetric] by (rule And_cong) auto
    moreover have "distribute_or_over_and (And (c st ! k # [?S])) = Or (map (gclause k [?S]) [0..<k + 1])"
      using k by (intro distribute_closed [OF c0 rec]) auto
    ultimately show ?thesis by (simp only: map_gclause_shift)
  qed
  have cl_last: "gclause (Suc k) [] (Suc k) = ?P"
    by (simp add: gclause_last And_single and_plain_def del: of_nat_Suc)
  have dC: "distribute_or_over_and ?C = Or (map distribute_or_over_and (args ?C))"
    by (simp add: C)
  have "set (map distribute_or_over_and (args ?C))
      = set [distribute_or_over_and ?P, distribute_or_over_and ?A]"
    by (simp add: C del: distribute_or_over_and.simps)
  then have dC2: "distribute_or_over_and ?C = Or [distribute_or_over_and ?P, distribute_or_over_and ?A]"
    unfolding dC by (rule Or_cong)
  have "distribute_or_over_and ?C = Or [?P, distribute_or_over_and ?A]"
    unfolding dC2 by simp
  also have "\<dots> = Or [Or [?P], Or (map (gclause (Suc k) []) [0..<k + 1])]"
    by (simp only: dA) (simp add: Or_single or_plain_def del: of_nat_Suc)
  also have "\<dots> = Or ([?P] @ map (gclause (Suc k) []) [0..<k + 1])"
  proof (rule Or_Or)
    show "or_plain x" if "x \<in> set [?P]" for x using that by (simp add: or_plain_def)
    show "or_plain x" if "x \<in> set (map (gclause (Suc k) []) [0..<k + 1])" for x
    proof -
      from that obtain j where "x = gclause (Suc k) [] j" by (auto simp only: set_map)
      moreover have "or_plain (gclause (Suc k) [] j)" by (rule gclause_or_plain) simp
      ultimately show ?thesis by simp
    qed
  qed
  also have "\<dots> = Or (map (gclause (Suc k) []) [0..<Suc k + 1])"
  proof (rule Or_cong)
    show "set ([?P] @ map (gclause (Suc k) []) [0..<k + 1])
        = set (map (gclause (Suc k) []) [0..<Suc k + 1])"
      unfolding upt_snoc map_append set_append
      by (simp only: cl_last list.map list.set Un_commute)
  qed
  finally have dist: "distribute_or_over_and ?C = Or (map (clause (Suc k)) [0..<Suc k + 1])"
    by (simp only: cl)
  have isOr: "is_Or ?C" by (simp add: C)
  have "to_dnf ?C = distribute_or_over_and ?C"
  proof (cases "is_dnf ?C")
    case False
    then show ?thesis using isOr by (simp add: to_dnf_def eliminate_implications_id)
  next
    case True
    have "?A \<in> set (args ?C)" by (simp add: C)
    with True have "list_all is_literal (args ?A)"
      by (auto simp: is_dnf_def C list_all_iff)
    then have lit: "is_literal (c st ! k)" by (simp add: list_all_iff)
    from carry_shape [OF c0 rec, of k] k have "is_Symbol (c st ! k) \<or> is_Or (c st ! k)" by simp
    with lit have "is_Symbol (c st ! k)" by (cases "c st ! k") simp_all
    then have "distribute_or_over_and (And [?S, c st ! k]) = And [?S, c st ! k]"
      by (intro distribute_And_symbols) auto
    then have "distribute_or_over_and ?A = ?A" by (simp only: A)
    then have "distribute_or_over_and ?C = Or [?P, ?A]"
      unfolding dC2 by simp
    also have "\<dots> = ?C" using rec [rule_format, OF k] by (simp only: A)
    finally show ?thesis using True isOr by (simp add: to_dnf_def)
  qed
  with dist show ?thesis by (simp only: Suc)
qed

lemma clause_And: "clause i j = And (clause_atoms i j)"
  by (simp add: clause_def clause_atoms_def)

lemma clause_atoms_symbols: "x \<in> set (clause_atoms i j) \<Longrightarrow> is_Symbol x"
  by (auto simp: clause_atoms_def)

lemma distinct_clause_atoms: "distinct (clause_atoms i j)"
proof -
  have "inj_on (\<lambda>m. Symbol (s_name (int m))) A" for A :: "nat set"
    by (rule inj_onI) (auto dest: s_name_inj_nat)
  then have "distinct (map (\<lambda>m. Symbol (s_name (int m))) [j + 1..<i + 1])"
    by (simp add: distinct_map)
  moreover have "Symbol (p_name (int j)) \<notin> set (map (\<lambda>m. Symbol (s_name (int m))) [j + 1..<i + 1])"
  proof
    assume "Symbol (p_name (int j)) \<in> set (map (\<lambda>m. Symbol (s_name (int m))) [j + 1..<i + 1])"
    then obtain m where "Symbol (p_name (int j)) = Symbol (s_name (int m))"
      by (auto simp only: set_map)
    then have "s_name (int m) = p_name (int j)" by simp
    then show False by (simp only: s_name_neq_p_name_nat)
  qed
  ultimately show ?thesis by (simp add: clause_atoms_def del: upt_Suc)
qed

lemma length_clause_atoms: "j \<le> i \<Longrightarrow> length (clause_atoms i j) = i - j + 1"
  by (simp add: clause_atoms_def del: upt_Suc)

lemma literals_clause:
  "set (literals (clause i j)) = set (clause_atoms i j)
    \<and> length (literals (clause i j)) = length (clause_atoms i j)
    \<and> (\<forall>x \<in> set (literals (clause i j)). is_Symbol x)"
proof -
  let ?L = "clause_atoms i j"
  have n: "clause i j = And_node ?L"
    unfolding clause_And by (intro And_plain) (simp add: clause_atoms_symbols Symbol_plain)
  show ?thesis
  proof (cases "2 \<le> length ?L")
    case True
    then have "clause i j = AndArgs (ordered ?L)"
      using And_node_ge2 [OF distinct_clause_atoms True] n by simp
    then show ?thesis by (simp add: literals_def clause_atoms_symbols)
  next
    case False
    then have "?L = [Symbol (p_name (int j))]"
      by (cases "map (\<lambda>m. Symbol (s_name (int m))) [j + 1..<i + 1]")
        (simp_all add: clause_atoms_def del: upt_Suc)
    then show ?thesis by (simp add: n And_node_def literals_def)
  qed
qed

lemma atoms_clause:
  "atoms (clause i j) = insert (p_name (int j)) ((\<lambda>m. s_name (int m)) ` {j + 1..i})"
proof -
  have "BooleanFalse \<notin> set (clause_atoms i j)" by (auto simp: clause_atoms_def)
  then have "atoms (clause i j) = (\<Union>x \<in> set (clause_atoms i j). atoms x)"
    unfolding clause_And by (rule atoms_And)
  also have "\<dots> = insert (p_name (int j)) ((\<lambda>m. s_name (int m)) ` {j + 1..i})"
  proof -
    have "set [j + 1..<i + 1] = {j + 1..i}" by auto
    then have "set (clause_atoms i j)
        = insert (Symbol (p_name (int j))) ((\<lambda>m. Symbol (s_name (int m))) ` {j + 1..i})"
      by (simp only: clause_atoms_def list.set set_map)
    then show ?thesis by auto
  qed
  finally show ?thesis .
qed

lemma clause_inj: "clause i j = clause i j' \<Longrightarrow> j = j'"
proof -
  assume "clause i j = clause i j'"
  then have "atoms (clause i j) = atoms (clause i j')" by simp
  then have "p_name (int j) \<in> insert (p_name (int j')) ((\<lambda>m. s_name (int m)) ` {j' + 1..i})"
    unfolding atoms_clause by blast
  then have "p_name (int j) = p_name (int j') \<or> (\<exists>m. s_name (int m) = p_name (int j))"
    by auto
  then have "p_name (int j) = p_name (int j')" by (simp only: s_name_neq_p_name_nat) simp
  then show ?thesis by (rule p_name_inj_nat)
qed

lemma clause_or_plain: "or_plain (clause i j)"
  unfolding clause_gclause by (rule gclause_or_plain) simp

lemma disjuncts_closed:
  "set (disjuncts (Or (map (clause i) [0..<i + 1]))) = clause i ` {0..i}
    \<and> length (disjuncts (Or (map (clause i) [0..<i + 1]))) = i + 1"
proof -
  let ?ds = "map (clause i) [0..<i + 1]"
  have n: "Or ?ds = Or_node ?ds"
    by (intro Or_plain) (auto simp: clause_or_plain simp del: upt_Suc)
  have d: "distinct ?ds"
    by (simp add: distinct_map del: upt_Suc) (rule inj_onI, rule clause_inj)
  have s: "set ?ds = clause i ` {0..i}" by (auto simp del: upt_Suc)
  show ?thesis
  proof (cases i)
    case 0
    have "Or [clause 0 0] = clause 0 0" using clause_or_plain by (rule Or_single)
    moreover have "\<not> is_Or (clause 0 0)" using clause_or_plain [of 0 0] by (simp add: or_plain_def)
    ultimately show ?thesis by (simp add: 0 disjuncts_def)
  next
    case (Suc k)
    then have "2 \<le> length ?ds" by simp
    from Or_node_ge2 [OF d this] have "Or ?ds = OrArgs (ordered ?ds)" by (simp only: n)
    then show ?thesis using s by (simp add: disjuncts_def del: upt_Suc)
  qed
qed

lemma is_dnf_closed: "is_dnf (Or (map (clause i) [0..<i + 1]))"
proof -
  let ?e = "Or (map (clause i) [0..<i + 1])"
  have lit: "if is_And d then (\<forall>x \<in> set (args d). is_literal x) else is_literal d"
    if "d \<in> set (disjuncts ?e)" for d
  proof -
    from that disjuncts_closed [of i] obtain j where d: "d = clause i j" by auto
    have sym: "\<And>x. x \<in> set (literals (clause i j)) \<Longrightarrow> is_Symbol x"
      using literals_clause [of i j] by blast
    show ?thesis
    proof (cases "is_And d")
      case True
      then have "literals d = args d" by (simp add: literals_def)
      with sym d have "\<And>x. x \<in> set (args d) \<Longrightarrow> is_Symbol x" by simp
      then have "\<And>x. x \<in> set (args d) \<Longrightarrow> is_literal x"
        by (metis is_Symbol.elims(2) is_literal.simps(3))
      with True show ?thesis by simp
    next
      case False
      then have "literals d = [d]" by (simp add: literals_def)
      with sym d have "is_Symbol d" by simp
      then have "is_literal d" by (cases d) simp_all
      with False show ?thesis by simp
    qed
  qed
  show ?thesis unfolding is_dnf_def list_all_iff
  proof (intro ballI)
    fix d assume "d \<in> set (if is_Or ?e then args ?e else [?e])"
    then have "d \<in> set (disjuncts ?e)" by (simp only: disjuncts_def)
    then show "if is_And d then (\<forall>x \<in> set (args d). is_literal x) else is_literal d"
      by (rule lit)
  qed
qed

lemma carry_closed_eval:
  assumes c0: "c st ! 0 = Symbol (p_name 0)"
    and rec: "\<forall>i. i < 31 \<longrightarrow>
             c st ! Suc i = Or [Symbol (p_name (int (Suc i))),
                                And [Symbol (s_name (int (Suc i))), c st ! i]]"
  shows "i < 32 \<Longrightarrow> eval_expr v (c st ! i)
      = (\<exists>j. j \<le> i \<and> v (p_name (int j)) \<and> (\<forall>m. j < m \<and> m \<le> i \<longrightarrow> v (s_name (int m))))"
proof (induction i)
  case 0
  then show ?case by (simp add: c0)
next
  case (Suc i)
  then have i: "i < 31"
    and ih: "eval_expr v (c st ! i)
      = (\<exists>j. j \<le> i \<and> v (p_name (int j)) \<and> (\<forall>m. j < m \<and> m \<le> i \<longrightarrow> v (s_name (int m))))"
    by simp_all
  let ?R = "\<lambda>n j. j \<le> n \<and> v (p_name (int j)) \<and> (\<forall>m. j < m \<and> m \<le> n \<longrightarrow> v (s_name (int m)))"
  have e: "eval_expr v (c st ! Suc i)
      = (v (p_name (int (Suc i))) \<or> (v (s_name (int (Suc i))) \<and> (\<exists>j. ?R i j)))"
    by (simp add: rec [rule_format, OF i] eval_Or eval_And ih del: of_nat_Suc)
  have "(\<exists>j. ?R (Suc i) j) = (v (p_name (int (Suc i))) \<or> (v (s_name (int (Suc i))) \<and> (\<exists>j. ?R i j)))"
  proof
    assume "\<exists>j. ?R (Suc i) j"
    then obtain j where j: "?R (Suc i) j" by blast
    show "v (p_name (int (Suc i))) \<or> (v (s_name (int (Suc i))) \<and> (\<exists>j. ?R i j))"
    proof (cases "j = Suc i")
      case True
      with j show ?thesis by blast
    next
      case False
      with j have "j \<le> i" by simp
      moreover from j \<open>j \<le> i\<close> have "v (s_name (int (Suc i)))" by (simp del: of_nat_Suc)
      moreover from j have "\<forall>m. j < m \<and> m \<le> i \<longrightarrow> v (s_name (int m))" by (simp del: of_nat_Suc)
      ultimately show ?thesis using j by blast
    qed
  next
    assume "v (p_name (int (Suc i))) \<or> (v (s_name (int (Suc i))) \<and> (\<exists>j. ?R i j))"
    then show "\<exists>j. ?R (Suc i) j"
    proof
      assume "v (p_name (int (Suc i)))"
      then have "?R (Suc i) (Suc i)" by (auto simp del: of_nat_Suc)
      then show ?thesis by blast
    next
      assume a: "v (s_name (int (Suc i))) \<and> (\<exists>j. ?R i j)"
      then obtain j where j: "?R i j" by blast
      have "v (s_name (int m))" if "j < m \<and> m \<le> Suc i" for m
      proof (cases "m = Suc i")
        case True
        with a show ?thesis by (simp del: of_nat_Suc)
      next
        case False
        with that have "j < m \<and> m \<le> i" by simp
        with j show ?thesis by blast
      qed
      with j have "?R (Suc i) j" by (simp del: of_nat_Suc)
      then show ?thesis by blast
    qed
  qed
  with e show ?case by (simp only:)
qed

section \<open>Reading the printed text back\<close>

lemma run_text_append:
  "run_text a b (t @ u) r = (case run_text a b t r of None \<Rightarrow> None | Some r' \<Rightarrow> run_text a b u r')"
  by (induction t arbitrary: r) (simp_all split: option.splits)

lemma run_text_step:
  "run_text a b t r = Some r' \<Longrightarrow> run_text a b (t @ u) r = run_text a b u r'"
  by (simp add: run_text_append)

lemma run_digits:
  "(\<And>ch. ch \<in> set ds \<Longrightarrow> is_digit ch) \<Longrightarrow>
     run_text a b ds (fs, Some (k, n)) = Some (fs, Some (k, foldl (\<lambda>x ch. 10 * x + digit_val ch) n ds))"
proof (induction ds arbitrary: n)
  case Nil
  show ?case by simp
next
  case (Cons d ds)
  have d: "is_digit d" using Cons.prems by simp
  then have "d \<noteq> CHR ''[''" by (auto simp: is_digit_def)
  with d have "feed a b d (fs, Some (k, n)) = Some (fs, Some (k, 10 * n + digit_val d))" by simp
  then show ?case using Cons by simp
qed

lemma run_index:
  "run_text a b (CHR ''['' # str_nat j @ '']'') ((orv, andv) # fs, Some (k, 0))
     = Some ((orv, andv \<and> (if k then a j else b j)) # fs, None)"
proof -
  have "run_text a b (str_nat j) ((orv, andv) # fs, Some (k, 0))
      = Some ((orv, andv) # fs, Some (k, j))"
    using run_digits [of "str_nat j" a b "(orv, andv) # fs" k 0] str_nat_digits [of _ j]
      int_of_digits_str_nat [of j]
    by (simp add: int_of_digits_def)
  then have "run_text a b (str_nat j @ '']'') ((orv, andv) # fs, Some (k, 0))
      = Some ((orv, andv \<and> (if k then a j else b j)) # fs, None)"
    by (simp add: run_text_append is_digit_def)
  then show ?thesis by simp
qed

lemma run_p_name:
  "run_text a b (p_name (int j)) ((orv, andv) # fs, None)
     = Some ((orv, andv \<and> (a j \<and> b j)) # fs, None)"
proof -
  let ?fs = "(orv, andv) # fs"
  have n: "p_name (int j) = ''(a'' @ (CHR ''['' # str_nat j @ '']'') @ '' & b''
      @ (CHR ''['' # str_nat j @ '']'') @ '')''"
    by (simp add: p_name_def str_int_nonneg)
  have 1: "run_text a b ''(a'' (?fs, None) = Some ((False, True) # ?fs, Some (True, 0))"
    by simp
  have 2: "run_text a b (CHR ''['' # str_nat j @ '']'') ((False, True) # ?fs, Some (True, 0))
      = Some ((False, a j) # ?fs, None)"
    using run_index [of a b j False True ?fs True] by simp
  have 3: "run_text a b '' & b'' ((False, a j) # ?fs, None)
      = Some ((False, a j) # ?fs, Some (False, 0))"
    by simp
  have 4: "run_text a b (CHR ''['' # str_nat j @ '']'') ((False, a j) # ?fs, Some (False, 0))
      = Some ((False, a j \<and> b j) # ?fs, None)"
    using run_index [of a b j False "a j" ?fs False] by simp
  have 5: "run_text a b '')'' ((False, a j \<and> b j) # ?fs, None)
      = Some ((orv, andv \<and> (a j \<and> b j)) # fs, None)"
    by simp
  show ?thesis
    unfolding n
    by (simp only: run_text_step [OF 1] run_text_step [OF 2] run_text_step [OF 3]
        run_text_step [OF 4] 5)
qed

lemma run_s_name:
  "run_text a b (s_name (int j)) ((orv, andv) # fs, None)
     = Some ((orv, andv \<and> (a j \<or> b j)) # fs, None)"
proof -
  let ?fs = "(orv, andv) # fs"
  have n: "s_name (int j) = ''(a'' @ (CHR ''['' # str_nat j @ '']'') @ '' | b''
      @ (CHR ''['' # str_nat j @ '']'') @ '')''"
    by (simp add: s_name_def str_int_nonneg)
  have 1: "run_text a b ''(a'' (?fs, None) = Some ((False, True) # ?fs, Some (True, 0))"
    by simp
  have 2: "run_text a b (CHR ''['' # str_nat j @ '']'') ((False, True) # ?fs, Some (True, 0))
      = Some ((False, a j) # ?fs, None)"
    using run_index [of a b j False True ?fs True] by simp
  have 3: "run_text a b '' | b'' ((False, a j) # ?fs, None)
      = Some ((a j, True) # ?fs, Some (False, 0))"
    by simp
  have 4: "run_text a b (CHR ''['' # str_nat j @ '']'') ((a j, True) # ?fs, Some (False, 0))
      = Some ((a j, b j) # ?fs, None)"
    using run_index [of a b j "a j" True ?fs False] by simp
  have 5: "run_text a b '')'' ((a j, b j) # ?fs, None)
      = Some ((orv, andv \<and> (a j \<or> b j)) # fs, None)"
    by simp
  show ?thesis
    unfolding n
    by (simp only: run_text_step [OF 1] run_text_step [OF 2] run_text_step [OF 3]
        run_text_step [OF 4] 5)
qed

lemma pstr_38: "(if precedence x < 38 then ''('' @ str x @ '')'' else str x) = pstr x"
  by (cases x) (simp_all add: pstr_def)

lemma pstr_36: "(if precedence x < 36 then ''('' @ str x @ '')'' else str x) = pstr x"
  by (cases x) (simp_all add: pstr_def)

lemma str_AndArgs: "str (AndArgs xs) = join '' & '' (map pstr xs)"
  by (simp add: pstr_38)

lemma str_OrArgs: "str (OrArgs xs) = join '' | '' (map pstr xs)"
  by (simp add: pstr_36)

lemma reads_factor_compound:
  assumes "is_And e \<or> is_Or e" and "reads_top a b e"
  shows "reads_factor a b e"
  unfolding reads_factor_def
proof (intro allI)
  fix orv andv :: bool and fs :: "frame list"
  let ?fs = "(orv, andv) # fs"
  from assms(2) obtain o' x' where
    r: "run_text a b (str e) ((False, True) # ?fs, None) = Some ((o', x') # ?fs, None)"
    and v: "(o' \<or> x') = eval_expr (interp a b) e"
    unfolding reads_top_def by blast
  have 1: "run_text a b ''('' (?fs, None) = Some ((False, True) # ?fs, None)" by simp
  have 3: "run_text a b '')'' ((o', x') # ?fs, None)
      = Some ((orv, andv \<and> eval_expr (interp a b) e) # fs, None)"
    using v by simp
  have "pstr e = ''('' @ str e @ '')''" using assms(1) by (simp add: pstr_def)
  then show "run_text a b (pstr e) (?fs, None)
      = Some ((orv, andv \<and> eval_expr (interp a b) e) # fs, None)"
    by (simp only: run_text_step [OF 1] run_text_step [OF r] 3)
qed

lemma reads_topI:
  assumes "\<And>fs. run_text a b (str e) ((False, True) # fs, None)
      = Some ((False, True \<and> eval_expr (interp a b) e) # fs, None)"
  shows "reads_top a b e"
  unfolding reads_top_def
proof
  fix fs
  have "run_text a b (str e) ((False, True) # fs, None)
      = Some ((False, eval_expr (interp a b) e) # fs, None)
    \<and> (False \<or> eval_expr (interp a b) e) = eval_expr (interp a b) e"
    using assms [of fs] by simp
  then show "\<exists>orv andv. run_text a b (str e) ((False, True) # fs, None) = Some ((orv, andv) # fs, None)
        \<and> (orv \<or> andv) = eval_expr (interp a b) e"
    by blast
qed

lemma reads_factor_symbol:
  assumes "printable (Symbol n)"
  shows "reads_factor a b (Symbol n)"
proof -
  from assms consider j where "j < 32" "n = p_name (int j)" | j where "j < 32" "n = s_name (int j)"
    by (auto simp del: upt.simps)
  then show ?thesis
  proof cases
    case 1
    then show ?thesis
      by (simp add: reads_factor_def pstr_def run_p_name interp_p_name)
  next
    case 2
    then show ?thesis
      by (simp add: reads_factor_def pstr_def run_s_name interp_s_name)
  qed
qed

lemma run_join_and:
  assumes "\<And>y. y \<in> set ys \<Longrightarrow> reads_factor a b y"
  shows "run_text a b (join '' & '' (map pstr ys)) ((orv, andv) # fs, None)
     = Some ((orv, andv \<and> (\<forall>y \<in> set ys. eval_expr (interp a b) y)) # fs, None)"
  using assms
proof (induction ys arbitrary: andv)
  case Nil
  show ?case by simp
next
  case (Cons y ys)
  have y: "run_text a b (pstr y) ((orv, andv) # fs, None)
      = Some ((orv, andv \<and> eval_expr (interp a b) y) # fs, None)"
    using Cons.prems [of y] by (simp add: reads_factor_def)
  show ?case
  proof (cases ys)
    case Nil
    then show ?thesis using y by simp
  next
    case (Cons z zs)
    let ?x = "andv \<and> eval_expr (interp a b) y"
    have sep: "run_text a b '' & '' ((orv, ?x) # fs, None) = Some ((orv, ?x) # fs, None)"
      by simp
    have ih: "run_text a b (join '' & '' (map pstr ys)) ((orv, ?x) # fs, None)
        = Some ((orv, ?x \<and> (\<forall>y \<in> set ys. eval_expr (interp a b) y)) # fs, None)"
      using Cons.prems by (intro Cons.IH) simp
    have "join '' & '' (map pstr (y # ys)) = pstr y @ '' & '' @ join '' & '' (map pstr ys)"
      by (simp add: Cons)
    then show ?thesis
      by (simp only: run_text_step [OF y] run_text_step [OF sep] ih) simp
  qed
qed

lemma run_join_or:
  assumes "\<And>y. y \<in> set (y0 # ys) \<Longrightarrow> reads_factor a b y"
  shows "\<exists>o' x'. run_text a b (join '' | '' (map pstr (y0 # ys))) ((orv, andv) # fs, None)
        = Some ((o', x') # fs, None)
      \<and> (o' \<or> x') = (orv \<or> (andv \<and> eval_expr (interp a b) y0)
            \<or> (\<exists>y \<in> set ys. eval_expr (interp a b) y))"
  using assms
proof (induction ys arbitrary: y0 orv andv)
  case Nil
  have "run_text a b (pstr y0) ((orv, andv) # fs, None)
      = Some ((orv, andv \<and> eval_expr (interp a b) y0) # fs, None)"
    using Nil [of y0] by (simp add: reads_factor_def)
  then show ?case by simp
next
  case (Cons z zs)
  let ?x = "andv \<and> eval_expr (interp a b) y0"
  have y: "run_text a b (pstr y0) ((orv, andv) # fs, None) = Some ((orv, ?x) # fs, None)"
    using Cons.prems [of y0] by (simp add: reads_factor_def)
  have sep: "run_text a b '' | '' ((orv, ?x) # fs, None) = Some ((orv \<or> ?x, True) # fs, None)"
    by simp
  from Cons.IH [of z "orv \<or> ?x" True] Cons.prems
  obtain o' x' where r: "run_text a b (join '' | '' (map pstr (z # zs))) ((orv \<or> ?x, True) # fs, None)
        = Some ((o', x') # fs, None)"
    and v: "(o' \<or> x') = ((orv \<or> ?x) \<or> (True \<and> eval_expr (interp a b) z)
            \<or> (\<exists>y \<in> set zs. eval_expr (interp a b) y))"
    by auto
  have "join '' | '' (map pstr (y0 # z # zs)) = pstr y0 @ '' | '' @ join '' | '' (map pstr (z # zs))"
    by simp
  then have "run_text a b (join '' | '' (map pstr (y0 # z # zs))) ((orv, andv) # fs, None)
      = Some ((o', x') # fs, None)"
    by (simp only: run_text_step [OF y] run_text_step [OF sep] r)
  moreover have "(o' \<or> x') = (orv \<or> ?x \<or> (\<exists>y \<in> set (z # zs). eval_expr (interp a b) y))"
    using v by auto
  ultimately show ?case by blast
qed

lemma reads_printable: "printable e \<Longrightarrow> reads_factor a b e \<and> reads_top a b e"
proof (induction e)
  case (Symbol n)
  then have f: "reads_factor a b (Symbol n)" by (rule reads_factor_symbol)
  then have "run_text a b (str (Symbol n)) ((False, True) # fs, None)
      = Some ((False, True \<and> eval_expr (interp a b) (Symbol n)) # fs, None)" for fs
    unfolding reads_factor_def by (simp add: pstr_def)
  then have "reads_top a b (Symbol n)" by (rule reads_topI)
  with f show ?case by simp
next
  case (AndArgs xs)
  then have f: "\<And>y. y \<in> set xs \<Longrightarrow> reads_factor a b y" by simp
  have "run_text a b (str (AndArgs xs)) ((False, True) # fs, None)
      = Some ((False, True \<and> eval_expr (interp a b) (AndArgs xs)) # fs, None)" for fs
    unfolding str_AndArgs using f by (simp only: run_join_and eval_expr.simps)
  then have t: "reads_top a b (AndArgs xs)" by (rule reads_topI)
  then show ?case using reads_factor_compound [of "AndArgs xs" a b] by simp
next
  case (OrArgs xs)
  then obtain y0 ys where xs: "xs = y0 # ys" by (cases xs) auto
  from OrArgs have f: "\<And>y. y \<in> set (y0 # ys) \<Longrightarrow> reads_factor a b y" by (auto simp: xs)
  have "\<exists>o' x'. run_text a b (str (OrArgs xs)) ((False, True) # fs, None) = Some ((o', x') # fs, None)
      \<and> (o' \<or> x') = eval_expr (interp a b) (OrArgs xs)" for fs
    unfolding str_OrArgs xs using run_join_or [OF f, where orv = False and andv = True and fs = fs] by auto
  then have t: "reads_top a b (OrArgs xs)" unfolding reads_top_def by blast
  then show ?case using reads_factor_compound [of "OrArgs xs" a b] by simp
qed simp_all

lemma eval_text_str:
  "printable e \<Longrightarrow> eval_text a b (str e) = Some (eval_expr (interp a b) e)"
proof -
  assume "printable e"
  then have "reads_top a b e" using reads_printable by blast
  then obtain orv andv where "run_text a b (str e) ([(False, True)], None) = Some ([(orv, andv)], None)"
    and "(orv \<or> andv) = eval_expr (interp a b) e"
    unfolding reads_top_def by blast
  then show ?thesis by (simp add: eval_text_def)
qed

lemma printable_clause_atom:
  assumes "i < 32" and "j \<le> i" and "x \<in> set (clause_atoms i j)"
  shows "printable x"
proof -
  from assms(3) consider "x = Symbol (p_name (int j))"
    | m where "j + 1 \<le> m" "m < i + 1" "x = Symbol (s_name (int m))"
    by (auto simp: clause_atoms_def simp del: upt_Suc)
  then show ?thesis
  proof cases
    case 1
    have "j \<in> set [0..<32]" using assms(1,2) by simp
    then have "p_name (int j) \<in> set (map (\<lambda>j. p_name (int j)) [0..<32])"
      by (simp only: set_map image_eqI)
    then show ?thesis by (simp only: 1 printable.simps) simp
  next
    case 2
    have "m \<in> set [0..<32]" using assms(1) 2 by simp
    then have "s_name (int m) \<in> set (map (\<lambda>j. s_name (int j)) [0..<32])"
      by (simp only: set_map image_eqI)
    then show ?thesis by (simp only: 2 printable.simps) simp
  qed
qed

lemma printable_clause:
  assumes "i < 32" and "j \<le> i"
  shows "printable (clause i j)"
proof -
  have lits: "\<And>x. x \<in> set (literals (clause i j)) \<Longrightarrow> printable x"
    using literals_clause [of i j] printable_clause_atom [OF assms] by simp
  show ?thesis
  proof (cases "is_And (clause i j)")
    case True
    then have "clause i j = AndArgs (args (clause i j))" by (rule is_And_args)
    moreover have "literals (clause i j) = args (clause i j)" using True by (simp add: literals_def)
    ultimately show ?thesis using lits by (metis printable.simps(2))
  next
    case False
    then have "literals (clause i j) = [clause i j]" by (simp add: literals_def)
    with lits show ?thesis by simp
  qed
qed

lemma printable_closed:
  assumes "i < 32"
  shows "printable (Or (map (clause i) [0..<i + 1]))"
proof -
  let ?e = "Or (map (clause i) [0..<i + 1])"
  have ds: "\<And>d. d \<in> set (disjuncts ?e) \<Longrightarrow> printable d"
    using disjuncts_closed [of i] printable_clause [OF assms] by auto
  have len: "length (disjuncts ?e) = i + 1" using disjuncts_closed [of i] by simp
  show ?thesis
  proof (cases "is_Or ?e")
    case True
    then have "?e = OrArgs (args ?e)" by (rule is_Or_args)
    moreover have d: "disjuncts ?e = args ?e" using True by (simp add: disjuncts_def)
    moreover have "args ?e \<noteq> []" using len d by auto
    ultimately show ?thesis using ds by (metis printable.simps(3))
  next
    case False
    then have "disjuncts ?e = [?e]" by (simp add: disjuncts_def)
    with ds show ?thesis by simp
  qed
qed

section \<open>The claims\<close>

text \<open>
  C1. The builder constructs exactly the ripple-carry recurrence. From any starting
  state the construction phase returns a state in which \<open>p[i]\<close> and \<open>s[i]\<close> are the
  atoms created for index \<open>i\<close>, \<open>c[0] = p[0]\<close>, and for every \<open>i\<close> from 1 to 31
  \<open>c[i] = Or(p[i], And(s[i], c[i-1]))\<close>.
\<close>

theorem C1_ripple_carry_recurrence:
  "\<exists>st. build st0 = Inr st
      \<and> (\<forall>i. i < 32 \<longrightarrow> p st ! i = Symbol (p_name (int i)) \<and> s st ! i = Symbol (s_name (int i)))
      \<and> c st ! 0 = p st ! 0
      \<and> (\<forall>i. 1 \<le> i \<and> i \<le> 31 \<longrightarrow>
             c st ! i = Or [p st ! i, And [s st ! i, c st ! (i - 1)]])"
proof -
  from build_result [of st0] obtain st where r: "build st0 = Inr st"
    and ps: "p st = map (\<lambda>i. Symbol (p_name i)) (range_list 0 32)"
    and ss: "s st = map (\<lambda>i. Symbol (s_name i)) (range_list 0 32)"
    and c0: "c st ! 0 = p st ! 0"
    and rec: "\<forall>i. 1 \<le> i \<and> i < 32 \<longrightarrow>
             c st ! nat i = Or [p st ! nat i, And [s st ! nat i, c st ! nat (i - 1)]]"
    by blast
  have "c st ! i = Or [p st ! i, And [s st ! i, c st ! (i - 1)]]" if "1 \<le> i \<and> i \<le> 31" for i
  proof -
    have "nat (int i - 1) = i - 1" by simp
    then show ?thesis using rec [rule_format, of "int i"] that by simp
  qed
  with r c0 nth_p_build [OF ps] nth_s_build [OF ss] show ?thesis by blast
qed

theorem C1_ripple_carry_recurrence_witness:
  "\<exists>st. build init = Inr st
      \<and> p st ! 1 = Symbol (p_name 1) \<and> s st ! 1 = Symbol (s_name 1)
      \<and> c st ! 0 = p st ! 0
      \<and> c st ! 1 = Or [p st ! 1, And [s st ! 1, c st ! 0]]
      \<and> c st ! 31 = Or [p st ! 31, And [s st ! 31, c st ! 30]]"
proof -
  from C1_ripple_carry_recurrence [of init] obtain st where r: "build init = Inr st"
    and a: "\<forall>i. i < 32 \<longrightarrow> p st ! i = Symbol (p_name (int i)) \<and> s st ! i = Symbol (s_name (int i))"
    and c0: "c st ! 0 = p st ! 0"
    and rec: "\<forall>i. 1 \<le> i \<and> i \<le> 31 \<longrightarrow>
             c st ! i = Or [p st ! i, And [s st ! i, c st ! (i - 1)]]"
    by blast
  from a [rule_format, of 1] rec [rule_format, of 1] rec [rule_format, of 31] r c0
  show ?thesis by simp
qed

text \<open>
  C2. The program writes exactly 32 lines to standard output, each closed by a newline,
  one per bit index 0 to 31; line \<open>i\<close> is four spaces, \<^verbatim>\<open>assign c[\<close>, the decimal index,
  \<^verbatim>\<open>] = \<close>, the rendering of the disjunctive normal form of \<open>c[i]\<close>, and \<^verbatim>\<open>;\<close>.
\<close>

theorem C2_output_lines:
  "\<exists>st w. adder_derivation st0 = Inr st \<and> stdout st = stdout st0 @ w
      \<and> w = unlines (splitlines w)
      \<and> length (splitlines w) = 32
      \<and> (\<forall>i. i < 32 \<longrightarrow>
            splitlines w ! i =
              ''    assign c['' @ str_int (int i) @ ''] = '' @ str (to_dnf (c st ! i)) @ '';'')"
proof -
  from output_lines [of st0] obtain st1 st where r: "adder_derivation st0 = Inr st"
    and cc: "c st = c st1"
    and out: "stdout st = stdout st0 @ unlines (carry_lines st1)"
    and sp: "splitlines (unlines (carry_lines st1)) = carry_lines st1"
    by blast
  have "splitlines (unlines (carry_lines st1)) ! i =
      ''    assign c['' @ str_int (int i) @ ''] = '' @ str (to_dnf (c st ! i)) @ '';''"
    if "i < 32" for i
    unfolding sp using that by (simp add: nth_carry_lines format_line_def cc)
  moreover have "length (splitlines (unlines (carry_lines st1))) = 32"
    unfolding sp by (rule length_carry_lines)
  ultimately show ?thesis using r out sp by metis
qed

theorem C2_output_lines_witness:
  "\<exists>st w. adder_derivation init = Inr st \<and> stdout st = w
      \<and> w = unlines (splitlines w)
      \<and> length (splitlines w) = 32
      \<and> splitlines w ! 0 = ''    assign c[0] = '' @ str (to_dnf (c st ! 0)) @ '';''
      \<and> splitlines w ! 31 = ''    assign c[31] = '' @ str (to_dnf (c st ! 31)) @ '';''"
proof -
  from C2_output_lines [of init] obtain st w where r: "adder_derivation init = Inr st"
    and out: "stdout st = stdout init @ w"
    and w: "w = unlines (splitlines w)" and len: "length (splitlines w) = 32"
    and ln: "\<forall>i. i < 32 \<longrightarrow>
            splitlines w ! i =
              ''    assign c['' @ str_int (int i) @ ''] = '' @ str (to_dnf (c st ! i)) @ '';''"
    by blast
  have "str_int (int 0) = ''0''" "str_int (int 31) = ''31''"
    by code_simp+
  with ln [rule_format, of 0] ln [rule_format, of 31]
  have "splitlines w ! 0 = ''    assign c[0] = '' @ str (to_dnf (c st ! 0)) @ '';''"
    "splitlines w ! 31 = ''    assign c[31] = '' @ str (to_dnf (c st ! 31)) @ '';''"
    by simp_all
  with r out w len show ?thesis by (auto simp: init_def)
qed

text \<open>
  C3. For every \<open>i\<close> below 32 the line at position \<open>i\<close> of the output contains the
  substring \<^verbatim>\<open>c[i]\<close> with that index, and the indices the 32 lines name, read back from
  the lines in output order, are 0, 1, ..., 31: strictly increasing, one line per index.
\<close>

theorem C3_lines_in_index_order:
  "\<exists>st w. adder_derivation st0 = Inr st \<and> stdout st = stdout st0 @ w
      \<and> length (splitlines w) = 32
      \<and> (\<forall>i. i < 32 \<longrightarrow> sublist (''c['' @ str_int (int i) @ '']'') (splitlines w ! i))
      \<and> map line_index (splitlines w) = map Some [0..<32]"
proof -
  from output_lines [of st0] obtain st1 st where r: "adder_derivation st0 = Inr st"
    and out: "stdout st = stdout st0 @ unlines (carry_lines st1)"
    and sp: "splitlines (unlines (carry_lines st1)) = carry_lines st1"
    by blast
  have "sublist (''c['' @ str_int (int i) @ '']'') (carry_lines st1 ! i)" if "i < 32" for i
    using that sublist_format_line [of i "to_dnf (c st1 ! i)"] by (simp only: nth_carry_lines)
  moreover have "map line_index (carry_lines st1) = map Some [0..<32]"
    by (simp add: carry_lines_def line_index_format_line comp_def del: upt.simps)
  ultimately show ?thesis using r out sp length_carry_lines [of st1] by metis
qed

theorem C3_lines_in_index_order_witness:
  "\<exists>st w. adder_derivation init = Inr st \<and> stdout st = w
      \<and> length (splitlines w) = 32
      \<and> sublist ''c[7]'' (splitlines w ! 7)
      \<and> line_index (splitlines w ! 7) = Some 7"
proof -
  from C3_lines_in_index_order [of init] obtain st w where r: "adder_derivation init = Inr st"
    and out: "stdout st = stdout init @ w"
    and len: "length (splitlines w) = 32"
    and sub: "\<forall>i. i < 32 \<longrightarrow> sublist (''c['' @ str_int (int i) @ '']'') (splitlines w ! i)"
    and ix: "map line_index (splitlines w) = map Some [0..<32]"
    by blast
  have "str_int (int 7) = ''7''" by code_simp
  with sub [rule_format, of 7] have "sublist ''c[7]'' (splitlines w ! 7)" by simp
  moreover have "line_index (splitlines w ! 7) = Some 7"
  proof -
    have "map line_index (splitlines w) ! 7 = map Some [0..<32] ! 7" by (simp only: ix)
    then show ?thesis using len by (simp del: upt.simps)
  qed
  ultimately show ?thesis using r out len by (auto simp: init_def)
qed

text \<open>
  C4. For every \<open>i\<close> with \<open>0 < i < 32\<close>, the expression printed on line \<open>i\<close>, read back
  as text and evaluated under every assignment to the input bits, has the value of
  \<open>(a[i] AND b[i]) OR ((a[i] OR b[i]) AND c[i-1])\<close> under the spec's recurrence; so has the
  disjunctive normal form itself with the atom \<open>p[j]\<close> read as \<open>a[j] AND b[j]\<close> and the atom
  \<open>s[j]\<close> as \<open>a[j] OR b[j]\<close>; and the conversion preserves the value of \<open>c[i]\<close> under
  every valuation of the atoms.
\<close>

theorem C4_dnf_preserves_recurrence:
  "\<exists>st w. adder_derivation st0 = Inr st \<and> stdout st = stdout st0 @ w
      \<and> (\<forall>i. 0 < i \<and> i < 32 \<longrightarrow>
            splitlines w ! i
              = ''    assign c['' @ str_int (int i) @ ''] = '' @ str (to_dnf (c st ! i)) @ '';''
          \<and> (\<forall>a b. eval_text a b (str (to_dnf (c st ! i)))
                 = Some ((a i \<and> b i) \<or> ((a i \<or> b i) \<and> carry_spec a b (i - 1))))
          \<and> (\<forall>a b. eval_expr (interp a b) (to_dnf (c st ! i))
                 = ((a i \<and> b i) \<or> ((a i \<or> b i) \<and> carry_spec a b (i - 1))))
          \<and> (\<forall>v. eval_expr v (to_dnf (c st ! i)) = eval_expr v (c st ! i)))"
proof -
  from output_lines [of st0] obtain st1 st where b: "build st0 = Inr st1"
    and r: "adder_derivation st0 = Inr st"
    and cc: "c st = c st1"
    and out: "stdout st = stdout st0 @ unlines (carry_lines st1)"
    and sp: "splitlines (unlines (carry_lines st1)) = carry_lines st1"
    by blast
  from build_facts [of st0] b have c0: "c st1 ! 0 = Symbol (p_name 0)"
    and rec: "\<forall>i. i < 31 \<longrightarrow>
             c st1 ! Suc i = Or [Symbol (p_name (int (Suc i))),
                                And [Symbol (s_name (int (Suc i))), c st1 ! i]]"
    by auto
  have "splitlines (unlines (carry_lines st1)) ! i
              = ''    assign c['' @ str_int (int i) @ ''] = '' @ str (to_dnf (c st ! i)) @ '';''
          \<and> (\<forall>a b. eval_text a b (str (to_dnf (c st ! i)))
                 = Some ((a i \<and> b i) \<or> ((a i \<or> b i) \<and> carry_spec a b (i - 1))))
          \<and> (\<forall>a b. eval_expr (interp a b) (to_dnf (c st ! i))
                 = ((a i \<and> b i) \<or> ((a i \<or> b i) \<and> carry_spec a b (i - 1))))
          \<and> (\<forall>v. eval_expr v (to_dnf (c st ! i)) = eval_expr v (c st ! i))"
    if i: "0 < i \<and> i < 32" for i
  proof -
    from i obtain k where k: "i = Suc k" by (cases i) auto
    have l: "splitlines (unlines (carry_lines st1)) ! i
        = ''    assign c['' @ str_int (int i) @ ''] = '' @ str (to_dnf (c st ! i)) @ '';''"
      unfolding sp using i by (simp add: nth_carry_lines format_line_def cc)
    have e: "eval_expr (interp a b) (to_dnf (c st ! i))
        = ((a i \<and> b i) \<or> ((a i \<or> b i) \<and> carry_spec a b (i - 1)))" for a b
    proof -
      have "eval_expr (interp a b) (to_dnf (c st1 ! i)) = carry_spec a b i"
        using i by (simp only: eval_to_dnf carry_eval [OF c0 rec])
      then show ?thesis by (simp add: k cc)
    qed
    have "printable (to_dnf (c st ! i))"
      using i printable_closed [of i] to_dnf_carry [OF c0 rec, of i] by (simp add: cc)
    then have t: "eval_text a b (str (to_dnf (c st ! i)))
        = Some ((a i \<and> b i) \<or> ((a i \<or> b i) \<and> carry_spec a b (i - 1)))" for a b
      using e [of a b] by (simp only: eval_text_str)
    have v: "\<forall>v. eval_expr v (to_dnf (c st ! i)) = eval_expr v (c st ! i)"
      by (simp add: eval_to_dnf)
    from t have t': "\<forall>a b. eval_text a b (str (to_dnf (c st ! i)))
        = Some ((a i \<and> b i) \<or> ((a i \<or> b i) \<and> carry_spec a b (i - 1)))" by (intro allI)
    from e have e': "\<forall>a b. eval_expr (interp a b) (to_dnf (c st ! i))
        = ((a i \<and> b i) \<or> ((a i \<or> b i) \<and> carry_spec a b (i - 1)))" by (intro allI)
    from l t' e' v show ?thesis by (intro conjI)
  qed
  then have "\<forall>i. 0 < i \<and> i < 32 \<longrightarrow>
            splitlines (unlines (carry_lines st1)) ! i
              = ''    assign c['' @ str_int (int i) @ ''] = '' @ str (to_dnf (c st ! i)) @ '';''
          \<and> (\<forall>a b. eval_text a b (str (to_dnf (c st ! i)))
                 = Some ((a i \<and> b i) \<or> ((a i \<or> b i) \<and> carry_spec a b (i - 1))))
          \<and> (\<forall>a b. eval_expr (interp a b) (to_dnf (c st ! i))
                 = ((a i \<and> b i) \<or> ((a i \<or> b i) \<and> carry_spec a b (i - 1))))
          \<and> (\<forall>v. eval_expr v (to_dnf (c st ! i)) = eval_expr v (c st ! i))"
    by (intro allI impI)
  with r out show ?thesis by (intro exI conjI)
qed

theorem C4_dnf_preserves_recurrence_witness:
  "\<exists>st w. adder_derivation init = Inr st \<and> stdout st = w
      \<and> splitlines w ! 1 = ''    assign c[1] = '' @ str (to_dnf (c st ! 1)) @ '';''
      \<and> eval_text (\<lambda>j. True) (\<lambda>j. j = 0) (str (to_dnf (c st ! 1))) = Some True
      \<and> eval_text (\<lambda>j. j = 1) (\<lambda>j. j = 0) (str (to_dnf (c st ! 1))) = Some False
      \<and> eval_expr (interp (\<lambda>j. True) (\<lambda>j. j = 0)) (to_dnf (c st ! 1))
      \<and> \<not> eval_expr (interp (\<lambda>j. j = 1) (\<lambda>j. j = 0)) (to_dnf (c st ! 1))"
proof -
  from C4_dnf_preserves_recurrence [of init] obtain st w where r: "adder_derivation init = Inr st"
    and out: "stdout st = stdout init @ w"
    and ev: "\<forall>i. 0 < i \<and> i < 32 \<longrightarrow>
            splitlines w ! i
              = ''    assign c['' @ str_int (int i) @ ''] = '' @ str (to_dnf (c st ! i)) @ '';''
          \<and> (\<forall>a b. eval_text a b (str (to_dnf (c st ! i)))
                 = Some ((a i \<and> b i) \<or> ((a i \<or> b i) \<and> carry_spec a b (i - 1))))
          \<and> (\<forall>a b. eval_expr (interp a b) (to_dnf (c st ! i))
                 = ((a i \<and> b i) \<or> ((a i \<or> b i) \<and> carry_spec a b (i - 1))))
          \<and> (\<forall>v. eval_expr v (to_dnf (c st ! i)) = eval_expr v (c st ! i))"
    by (elim exE conjE)
  have one: "(0::nat) < 1 \<and> (1::nat) < 32" by simp
  note e1 = ev [rule_format, OF one]
  note l = e1 [THEN conjunct1]
    and t = e1 [THEN conjunct2, THEN conjunct1, rule_format]
    and e = e1 [THEN conjunct2, THEN conjunct2, THEN conjunct1, rule_format]
  have s1: "str_int (int 1) = ''1''" by code_simp
  have "splitlines w ! 1 = ''    assign c[1] = '' @ str (to_dnf (c st ! 1)) @ '';''"
    using l s1 by simp
  moreover have "eval_text (\<lambda>j. True) (\<lambda>j. j = 0) (str (to_dnf (c st ! 1))) = Some True"
    using t [of "\<lambda>j. True" "\<lambda>j. j = 0"] by simp
  moreover have "eval_text (\<lambda>j. j = 1) (\<lambda>j. j = 0) (str (to_dnf (c st ! 1))) = Some False"
    using t [of "\<lambda>j. j = 1" "\<lambda>j. j = 0"] by simp
  moreover have "eval_expr (interp (\<lambda>j. True) (\<lambda>j. j = 0)) (to_dnf (c st ! 1))"
    using e [of "\<lambda>j. True" "\<lambda>j. j = 0"] by simp
  moreover have "\<not> eval_expr (interp (\<lambda>j. j = 1) (\<lambda>j. j = 0)) (to_dnf (c st ! 1))"
    using e [of "\<lambda>j. j = 1" "\<lambda>j. j = 0"] by simp
  ultimately show ?thesis using r out by (simp add: init_def)
qed

text \<open>
  C5. The first output line is \<^verbatim>\<open>    assign c[0] = ...;\<close> whose expression part is a
  disjunctive normal form with the value of \<open>a[0] AND b[0]\<close> under every assignment, as
  an expression and as printed text (it is the atom \<open>p[0]\<close> itself), and the last of the
  32 lines is \<^verbatim>\<open>    assign c[31] = ...;\<close>.
\<close>

theorem C5_first_and_last_line:
  "\<exists>st w. adder_derivation st0 = Inr st \<and> stdout st = stdout st0 @ w
      \<and> length (splitlines w) = 32
      \<and> hd (splitlines w) = ''    assign c[0] = '' @ str (to_dnf (c st ! 0)) @ '';''
      \<and> str (to_dnf (c st ! 0)) = ''(a[0] & b[0])''
      \<and> is_dnf (to_dnf (c st ! 0))
      \<and> (\<forall>a b. eval_text a b (str (to_dnf (c st ! 0))) = Some (a 0 \<and> b 0))
      \<and> (\<forall>a b. eval_expr (interp a b) (to_dnf (c st ! 0)) = (a 0 \<and> b 0))
      \<and> last (splitlines w) = ''    assign c[31] = '' @ str (to_dnf (c st ! 31)) @ '';''"
proof -
  from output_lines [of st0] obtain st1 st where b: "build st0 = Inr st1"
    and r: "adder_derivation st0 = Inr st"
    and cc: "c st = c st1"
    and out: "stdout st = stdout st0 @ unlines (carry_lines st1)"
    and sp: "splitlines (unlines (carry_lines st1)) = carry_lines st1"
    by blast
  from build_facts [of st0] b have c0: "c st1 ! 0 = Symbol (p_name 0)" by auto
  have len: "length (carry_lines st1) = 32" by (rule length_carry_lines)
  then have ne: "carry_lines st1 \<noteq> []" by auto
  have d0: "to_dnf (c st ! 0) = Symbol ''(a[0] & b[0])''"
    by (simp only: cc c0 to_dnf_Symbol p_name_0)
  have s0: "str_int (int 0) = ''0''" and s31: "str_int (int 31) = ''31''" by code_simp+
  have "hd (carry_lines st1) = carry_lines st1 ! 0" using ne by (rule hd_conv_nth)
  then have h: "hd (carry_lines st1) = ''    assign c[0] = '' @ str (to_dnf (c st ! 0)) @ '';''"
    using s0 by (simp add: nth_carry_lines format_line_def cc)
  have "last (carry_lines st1) = carry_lines st1 ! (length (carry_lines st1) - 1)"
    using ne by (rule last_conv_nth)
  then have "last (carry_lines st1) = carry_lines st1 ! 31" by (simp only: len) simp
  then have l: "last (carry_lines st1) = ''    assign c[31] = '' @ str (to_dnf (c st ! 31)) @ '';''"
    using s31 by (simp add: nth_carry_lines format_line_def cc)
  have e: "\<forall>a b. eval_expr (interp a b) (to_dnf (c st ! 0)) = (a 0 \<and> b 0)"
    using interp_p_name [of 0] by (simp add: cc c0 to_dnf_Symbol)
  have "printable (Symbol (p_name (int 0)))"
    using printable_clause_atom [of 0 0 "Symbol (p_name (int 0))"] by (simp add: clause_atoms_def)
  then have "printable (to_dnf (c st ! 0))" by (simp add: cc c0 to_dnf_Symbol)
  then have t: "\<forall>a b. eval_text a b (str (to_dnf (c st ! 0))) = Some (a 0 \<and> b 0)"
    using e by (simp only: eval_text_str) simp
  have n: "is_dnf (to_dnf (c st ! 0))" by (simp add: d0 is_dnf_def)
  have s: "str (to_dnf (c st ! 0)) = ''(a[0] & b[0])''" by (simp add: d0)
  have len': "length (splitlines (unlines (carry_lines st1))) = 32" by (simp only: sp len)
  have h': "hd (splitlines (unlines (carry_lines st1)))
      = ''    assign c[0] = '' @ str (to_dnf (c st ! 0)) @ '';''"
    unfolding sp by (rule h)
  have l': "last (splitlines (unlines (carry_lines st1)))
      = ''    assign c[31] = '' @ str (to_dnf (c st ! 31)) @ '';''"
    unfolding sp by (rule l)
  from r out len' h' s n t e l' show ?thesis by (intro exI conjI)
qed

theorem C5_first_and_last_line_witness:
  "\<exists>st w. adder_derivation init = Inr st \<and> stdout st = w
      \<and> hd (splitlines w) = ''    assign c[0] = (a[0] & b[0]);''
      \<and> eval_text (\<lambda>j. True) (\<lambda>j. True) (str (to_dnf (c st ! 0))) = Some True
      \<and> eval_text (\<lambda>j. True) (\<lambda>j. False) (str (to_dnf (c st ! 0))) = Some False
      \<and> last (splitlines w) = ''    assign c[31] = '' @ str (to_dnf (c st ! 31)) @ '';''"
proof -
  from C5_first_and_last_line [of init] obtain st w where r: "adder_derivation init = Inr st"
    and out: "stdout st = stdout init @ w"
    and h: "hd (splitlines w) = ''    assign c[0] = '' @ str (to_dnf (c st ! 0)) @ '';''"
    and s: "str (to_dnf (c st ! 0)) = ''(a[0] & b[0])''"
    and t: "\<forall>a b. eval_text a b (str (to_dnf (c st ! 0))) = Some (a 0 \<and> b 0)"
    and l: "last (splitlines w) = ''    assign c[31] = '' @ str (to_dnf (c st ! 31)) @ '';''"
    by (elim exE conjE)
  have "hd (splitlines w) = ''    assign c[0] = (a[0] & b[0]);''" by (simp only: h s) simp
  moreover have "eval_text (\<lambda>j. True) (\<lambda>j. True) (str (to_dnf (c st ! 0))) = Some True"
    and "eval_text (\<lambda>j. True) (\<lambda>j. False) (str (to_dnf (c st ! 0))) = Some False"
    using t [rule_format, of "\<lambda>j. True" "\<lambda>j. True"] t [rule_format, of "\<lambda>j. True" "\<lambda>j. False"]
    by simp_all
  ultimately show ?thesis using r out l by (simp add: init_def)
qed

text \<open>
  C6. The carry sequence has exactly 32 entries; the atoms of \<open>c[i]\<close> are those of
  \<open>p[0..i]\<close> and \<open>s[1..i]\<close>, and the atom \<open>s[0]\<close> occurs in no \<open>c[i]\<close>; \<open>c[i]\<close> is built
  from \<open>c[i-1]\<close> alone among the carries; and no entry changes after it is created: the
  build loop only appends to \<open>c\<close>, the print loop leaves \<open>c\<close> as it is, and the
  sequence after the whole run is the one the construction phase built.
\<close>

theorem C6_carry_sequence_invariant:
  "(\<exists>st. build st0 = Inr st \<and> length (c st) = 32
      \<and> (\<forall>i. i < 32 \<longrightarrow>
            atoms (c st ! i) = (\<Union>j \<in> {0..i}. atoms (p st ! j)) \<union> (\<Union>j \<in> {1..i}. atoms (s st ! j)))
      \<and> (\<forall>i. i < 32 \<longrightarrow> atoms (s st ! 0) \<inter> atoms (c st ! i) = {})
      \<and> (\<forall>i. 1 \<le> i \<and> i < 32 \<longrightarrow> c st ! i = Or [p st ! i, And [s st ! i, c st ! (i - 1)]])
      \<and> (\<exists>st'. adder_derivation st0 = Inr st' \<and> c st' = c st))
   \<and> (\<forall>ixs st st'. build_loop ixs st = Inr st' \<longrightarrow> prefix (c st) (c st'))
   \<and> (\<forall>ixs st st'. print_loop ixs st = Inr st' \<longrightarrow> c st' = c st)"
proof -
  from build_facts [of st0] obtain st where r: "build st0 = Inr st"
    and len: "length (c st) = 32"
    and pn: "\<forall>i. i < 32 \<longrightarrow> p st ! i = Symbol (p_name (int i))"
    and sn: "\<forall>i. i < 32 \<longrightarrow> s st ! i = Symbol (s_name (int i))"
    and c0: "c st ! 0 = Symbol (p_name 0)"
    and rec: "\<forall>i. i < 31 \<longrightarrow>
             c st ! Suc i = Or [Symbol (p_name (int (Suc i))),
                                And [Symbol (s_name (int (Suc i))), c st ! i]]"
    by blast
  have at: "atoms (c st ! i) = (\<lambda>j. p_name (int j)) ` {0..i} \<union> (\<lambda>j. s_name (int j)) ` {1..i}"
    if "i < 32" for i
    using that by (rule carry_atoms [OF c0 rec])
  have a1: "atoms (c st ! i) = (\<Union>j \<in> {0..i}. atoms (p st ! j)) \<union> (\<Union>j \<in> {1..i}. atoms (s st ! j))"
    if i: "i < 32" for i
  proof -
    have "(\<Union>j \<in> {0..i}. atoms (p st ! j)) = (\<lambda>j. p_name (int j)) ` {0..i}"
      using i pn by auto
    moreover have "(\<Union>j \<in> {1..i}. atoms (s st ! j)) = (\<lambda>j. s_name (int j)) ` {1..i}"
      using i sn by auto
    ultimately show ?thesis using at [OF i] by simp
  qed
  have a2: "atoms (s st ! 0) \<inter> atoms (c st ! i) = {}" if i: "i < 32" for i
  proof -
    have "s_name (int 0) \<notin> (\<lambda>j. p_name (int j)) ` {0..i}"
      using s_name_neq_p_name_nat [of 0] by blast
    moreover have "s_name (int 0) \<notin> (\<lambda>j. s_name (int j)) ` {1..i}"
    proof
      assume "s_name (int 0) \<in> (\<lambda>j. s_name (int j)) ` {1..i}"
      then obtain j where "1 \<le> j" and "s_name (int 0) = s_name (int j)" by auto
      then show False using s_name_inj_nat [of 0 j] by simp
    qed
    ultimately show ?thesis using at [OF i] sn [rule_format, of 0] by simp
  qed
  have a3: "c st ! i = Or [p st ! i, And [s st ! i, c st ! (i - 1)]]" if "1 \<le> i \<and> i < 32" for i
  proof -
    from that obtain k where k: "i = Suc k" "k < 31" by (cases i) auto
    show ?thesis using rec [rule_format, OF k(2)] pn [rule_format, of i] sn [rule_format, of i] that
      by (simp add: k(1))
  qed
  from output_lines [of st0] r have a4: "\<exists>st'. adder_derivation st0 = Inr st' \<and> c st' = c st"
    by auto
  have "\<forall>ixs st st'. build_loop ixs st = Inr st' \<longrightarrow> prefix (c st) (c st')"
    using build_loop_prefix by blast
  moreover have "\<forall>ixs st st'. print_loop ixs st = Inr st' \<longrightarrow> c st' = c st"
    using print_loop_frame by blast
  moreover have "\<exists>st. build st0 = Inr st \<and> length (c st) = 32
      \<and> (\<forall>i. i < 32 \<longrightarrow>
            atoms (c st ! i) = (\<Union>j \<in> {0..i}. atoms (p st ! j)) \<union> (\<Union>j \<in> {1..i}. atoms (s st ! j)))
      \<and> (\<forall>i. i < 32 \<longrightarrow> atoms (s st ! 0) \<inter> atoms (c st ! i) = {})
      \<and> (\<forall>i. 1 \<le> i \<and> i < 32 \<longrightarrow> c st ! i = Or [p st ! i, And [s st ! i, c st ! (i - 1)]])
      \<and> (\<exists>st'. adder_derivation st0 = Inr st' \<and> c st' = c st)"
    using r len a1 a2 a3 a4 by blast
  ultimately show ?thesis by blast
qed

theorem C6_carry_sequence_invariant_witness:
  "(\<exists>st. build init = Inr st \<and> length (c st) = 32
      \<and> atoms (c st ! 2) = (\<Union>j \<in> {0..2}. atoms (p st ! j)) \<union> (\<Union>j \<in> {1..2}. atoms (s st ! j))
      \<and> atoms (s st ! 0) \<inter> atoms (c st ! 2) = {}
      \<and> c st ! 2 = Or [p st ! 2, And [s st ! 2, c st ! 1]]
      \<and> (\<exists>st'. adder_derivation init = Inr st' \<and> c st' = c st))
   \<and> (\<exists>st'. build_loop [1]
              \<lparr>p = [Symbol ''x'', Symbol ''y''], s = [Symbol ''u'', Symbol ''v''],
               c = [Symbol ''x''], stdout = []\<rparr> = Inr st'
          \<and> prefix [Symbol ''x''] (c st'))
   \<and> (\<exists>st'. print_loop [0]
              \<lparr>p = [], s = [], c = [Symbol ''x''], stdout = []\<rparr> = Inr st'
          \<and> c st' = [Symbol ''x''])"
proof -
  note inv = C6_carry_sequence_invariant [of init]
  from inv obtain st where r: "build init = Inr st" and len: "length (c st) = 32"
    and a1: "\<forall>i. i < 32 \<longrightarrow>
            atoms (c st ! i) = (\<Union>j \<in> {0..i}. atoms (p st ! j)) \<union> (\<Union>j \<in> {1..i}. atoms (s st ! j))"
    and a2: "\<forall>i. i < 32 \<longrightarrow> atoms (s st ! 0) \<inter> atoms (c st ! i) = {}"
    and a3: "\<forall>i. 1 \<le> i \<and> i < 32 \<longrightarrow> c st ! i = Or [p st ! i, And [s st ! i, c st ! (i - 1)]]"
    and a4: "\<exists>st'. adder_derivation init = Inr st' \<and> c st' = c st"
    by blast
  from inv have bl: "\<And>ixs st st'. build_loop ixs st = Inr st' \<Longrightarrow> prefix (c st) (c st')"
    and pl: "\<And>ixs st st'. print_loop ixs st = Inr st' \<Longrightarrow> c st' = c st"
    by blast+
  have two: "(2::nat) < 32" "(1::nat) \<le> 2 \<and> (2::nat) < 32" by simp_all
  have "c st ! 2 = Or [p st ! 2, And [s st ! 2, c st ! 1]]"
    using a3 [rule_format, OF two(2)] by simp
  with r len a1 [rule_format, OF two(1)] a2 [rule_format, OF two(1)] a4
  have part1: "\<exists>st. build init = Inr st \<and> length (c st) = 32
      \<and> atoms (c st ! 2) = (\<Union>j \<in> {0..2}. atoms (p st ! j)) \<union> (\<Union>j \<in> {1..2}. atoms (s st ! j))
      \<and> atoms (s st ! 0) \<inter> atoms (c st ! 2) = {}
      \<and> c st ! 2 = Or [p st ! 2, And [s st ! 2, c st ! 1]]
      \<and> (\<exists>st'. adder_derivation init = Inr st' \<and> c st' = c st)"
    by blast
  let ?s1 = "\<lparr>p = [Symbol ''x'', Symbol ''y''], s = [Symbol ''u'', Symbol ''v''],
               c = [Symbol ''x''], stdout = []\<rparr>"
  obtain st1 where b1: "build_loop [1] ?s1 = Inr st1" by (simp add: getitem_def)
  from bl [OF b1] have part2: "\<exists>st'. build_loop [1] ?s1 = Inr st' \<and> prefix [Symbol ''x''] (c st')"
    using b1 by auto
  let ?s2 = "\<lparr>p = [], s = [], c = [Symbol ''x''], stdout = []\<rparr>"
  obtain st2 where b2: "print_loop [0] ?s2 = Inr st2" by (simp add: getitem_def)
  from pl [OF b2] have part3: "\<exists>st'. print_loop [0] ?s2 = Inr st' \<and> c st' = [Symbol ''x'']"
    using b2 by auto
  from part1 part2 part3 show ?thesis by blast
qed

text \<open>
  C8. The construction phase is total and has no side effect: from any starting state it
  returns normally (no subscript raises), with 32 entries in each of \<open>p\<close>, \<open>s\<close> and
  \<open>c\<close>, and it leaves the standard output stream as it found it.
\<close>

theorem C8_construction_total:
  "\<exists>st. build st0 = Inr st \<and> stdout st = stdout st0
      \<and> length (p st) = 32 \<and> length (s st) = 32 \<and> length (c st) = 32"
proof -
  from build_result [of st0] obtain st where "build st0 = Inr st"
    and "p st = map (\<lambda>i. Symbol (p_name i)) (range_list 0 32)"
    and "s st = map (\<lambda>i. Symbol (s_name i)) (range_list 0 32)"
    and "stdout st = stdout st0" and "length (c st) = 32"
    by blast
  then show ?thesis by (simp add: length_range_list)
qed

theorem C8_construction_total_witness:
  "\<exists>st. build init = Inr st \<and> stdout st = []
      \<and> length (p st) = 32 \<and> length (s st) = 32 \<and> length (c st) = 32"
  using C8_construction_total [of init] by (simp add: init_def)

text \<open>
  C9. For every carry \<open>c[i]\<close> the conversion to disjunctive normal form returns (the
  conversion is a total function: its recursion is proved to terminate) and its result is
  in disjunctive normal form; the whole run returns normally from any starting state.
\<close>

theorem C9_run_terminates:
  "\<exists>st. adder_derivation st0 = Inr st \<and> length (c st) = 32
      \<and> (\<forall>i. i < 32 \<longrightarrow> is_dnf (to_dnf (c st ! i)))"
proof -
  from output_lines [of st0] obtain st1 st where b: "build st0 = Inr st1"
    and r: "adder_derivation st0 = Inr st" and cc: "c st = c st1"
    by blast
  from build_facts [of st0] b have len: "length (c st1) = 32"
    and c0: "c st1 ! 0 = Symbol (p_name 0)"
    and rec: "\<forall>i. i < 31 \<longrightarrow>
             c st1 ! Suc i = Or [Symbol (p_name (int (Suc i))),
                                And [Symbol (s_name (int (Suc i))), c st1 ! i]]"
    by auto
  have "is_dnf (to_dnf (c st ! i))" if "i < 32" for i
    using is_dnf_closed [of i] to_dnf_carry [OF c0 rec that] by (simp add: cc)
  with r len cc show ?thesis by auto
qed

theorem C9_run_terminates_witness:
  "\<exists>st. adder_derivation init = Inr st \<and> length (c st) = 32
      \<and> is_dnf (to_dnf (c st ! 0)) \<and> is_dnf (to_dnf (c st ! 31))"
proof -
  from C9_run_terminates [of init] obtain st where "adder_derivation init = Inr st"
    and "length (c st) = 32" and a: "\<forall>i. i < 32 \<longrightarrow> is_dnf (to_dnf (c st ! i))"
    by blast
  moreover from a have "is_dnf (to_dnf (c st ! 0))" "is_dnf (to_dnf (c st ! 31))" by simp_all
  ultimately show ?thesis by blast
qed

text \<open>
  C10. For every \<open>i\<close> below 32, \<open>c[i]\<close> holds under a valuation of the atoms exactly when
  for some \<open>j \<le> i\<close> the atom \<open>p[j]\<close> and all of \<open>s[j+1..i]\<close> hold; its disjunctive normal
  form is the disjunction of the clauses \<open>p[j] AND s[j+1] AND ... AND s[i]\<close> for \<open>j\<close> from
  0 to \<open>i\<close>, which has exactly \<open>i+1\<close> disjuncts, the one for \<open>j\<close> being the conjunction of
  the atom \<open>p[j]\<close> with the \<open>i-j\<close> distinct atoms \<open>s[j+1..i]\<close>.
\<close>

theorem C10_closed_form:
  "\<exists>st. build st0 = Inr st \<and> (\<forall>i. i < 32 \<longrightarrow>
      (\<forall>v. eval_expr v (c st ! i)
          = (\<exists>j. j \<le> i \<and> v (p_name (int j)) \<and> (\<forall>m. j < m \<and> m \<le> i \<longrightarrow> v (s_name (int m)))))
    \<and> to_dnf (c st ! i) = Or (map (clause i) [0..<i + 1])
    \<and> is_dnf (to_dnf (c st ! i))
    \<and> length (disjuncts (to_dnf (c st ! i))) = i + 1
    \<and> set (disjuncts (to_dnf (c st ! i))) = clause i ` {0..i}
    \<and> (\<forall>j. j \<le> i \<longrightarrow>
          set (literals (clause i j)) = insert (p st ! j) ((\<lambda>m. s st ! m) ` {j + 1..i})
        \<and> length (literals (clause i j)) = i - j + 1))"
proof -
  from build_facts [of st0] obtain st where r: "build st0 = Inr st"
    and pn: "\<forall>i. i < 32 \<longrightarrow> p st ! i = Symbol (p_name (int i))"
    and sn: "\<forall>i. i < 32 \<longrightarrow> s st ! i = Symbol (s_name (int i))"
    and c0: "c st ! 0 = Symbol (p_name 0)"
    and rec: "\<forall>i. i < 31 \<longrightarrow>
             c st ! Suc i = Or [Symbol (p_name (int (Suc i))),
                                And [Symbol (s_name (int (Suc i))), c st ! i]]"
    by blast
  have lits: "set (literals (clause i j)) = insert (p st ! j) ((\<lambda>m. s st ! m) ` {j + 1..i})
        \<and> length (literals (clause i j)) = i - j + 1" if i: "i < 32" and j: "j \<le> i" for i j
  proof -
    have "set [j + 1..<i + 1] = {j + 1..i}" by auto
    then have "set (clause_atoms i j)
        = insert (Symbol (p_name (int j))) ((\<lambda>m. Symbol (s_name (int m))) ` {j + 1..i})"
      by (simp only: clause_atoms_def list.set set_map)
    moreover have "p st ! j = Symbol (p_name (int j))" using pn i j by simp
    moreover have "(\<lambda>m. s st ! m) ` {j + 1..i} = (\<lambda>m. Symbol (s_name (int m))) ` {j + 1..i}"
      using sn i by (intro image_cong) auto
    ultimately show ?thesis
      using literals_clause [of i j] length_clause_atoms [OF j] by simp
  qed
  have "(\<forall>v. eval_expr v (c st ! i)
          = (\<exists>j. j \<le> i \<and> v (p_name (int j)) \<and> (\<forall>m. j < m \<and> m \<le> i \<longrightarrow> v (s_name (int m)))))
    \<and> to_dnf (c st ! i) = Or (map (clause i) [0..<i + 1])
    \<and> is_dnf (to_dnf (c st ! i))
    \<and> length (disjuncts (to_dnf (c st ! i))) = i + 1
    \<and> set (disjuncts (to_dnf (c st ! i))) = clause i ` {0..i}
    \<and> (\<forall>j. j \<le> i \<longrightarrow>
          set (literals (clause i j)) = insert (p st ! j) ((\<lambda>m. s st ! m) ` {j + 1..i})
        \<and> length (literals (clause i j)) = i - j + 1)" if i: "i < 32" for i
  proof -
    have d: "to_dnf (c st ! i) = Or (map (clause i) [0..<i + 1])"
      using i by (rule to_dnf_carry [OF c0 rec])
    have e: "\<forall>v. eval_expr v (c st ! i)
          = (\<exists>j. j \<le> i \<and> v (p_name (int j)) \<and> (\<forall>m. j < m \<and> m \<le> i \<longrightarrow> v (s_name (int m))))"
      using carry_closed_eval [OF c0 rec i] by (intro allI)
    have n: "is_dnf (to_dnf (c st ! i))" unfolding d by (rule is_dnf_closed)
    have l: "length (disjuncts (to_dnf (c st ! i))) = i + 1"
      and s: "set (disjuncts (to_dnf (c st ! i))) = clause i ` {0..i}"
      unfolding d using disjuncts_closed [of i] by simp_all
    have t: "\<forall>j. j \<le> i \<longrightarrow>
          set (literals (clause i j)) = insert (p st ! j) ((\<lambda>m. s st ! m) ` {j + 1..i})
        \<and> length (literals (clause i j)) = i - j + 1"
      using lits [OF i] by (intro allI impI)
    from e d n l s t show ?thesis by (intro conjI)
  qed
  then have "\<forall>i. i < 32 \<longrightarrow>
      (\<forall>v. eval_expr v (c st ! i)
          = (\<exists>j. j \<le> i \<and> v (p_name (int j)) \<and> (\<forall>m. j < m \<and> m \<le> i \<longrightarrow> v (s_name (int m)))))
    \<and> to_dnf (c st ! i) = Or (map (clause i) [0..<i + 1])
    \<and> is_dnf (to_dnf (c st ! i))
    \<and> length (disjuncts (to_dnf (c st ! i))) = i + 1
    \<and> set (disjuncts (to_dnf (c st ! i))) = clause i ` {0..i}
    \<and> (\<forall>j. j \<le> i \<longrightarrow>
          set (literals (clause i j)) = insert (p st ! j) ((\<lambda>m. s st ! m) ` {j + 1..i})
        \<and> length (literals (clause i j)) = i - j + 1)"
    by (intro allI impI)
  with r show ?thesis by (intro exI conjI)
qed

theorem C10_closed_form_witness:
  "\<exists>st. build init = Inr st
      \<and> eval_expr (\<lambda>n. True) (c st ! 2)
      \<and> to_dnf (c st ! 2) = Or (map (clause 2) [0..<2 + 1])
      \<and> length (disjuncts (to_dnf (c st ! 2))) = 3
      \<and> set (literals (clause 2 0)) = insert (p st ! 0) ((\<lambda>m. s st ! m) ` {0 + 1..2})
      \<and> length (literals (clause 2 0)) = 3"
proof -
  from C10_closed_form [of init] obtain st where r: "build init = Inr st"
    and a: "\<forall>i. i < 32 \<longrightarrow>
      (\<forall>v. eval_expr v (c st ! i)
          = (\<exists>j. j \<le> i \<and> v (p_name (int j)) \<and> (\<forall>m. j < m \<and> m \<le> i \<longrightarrow> v (s_name (int m)))))
    \<and> to_dnf (c st ! i) = Or (map (clause i) [0..<i + 1])
    \<and> is_dnf (to_dnf (c st ! i))
    \<and> length (disjuncts (to_dnf (c st ! i))) = i + 1
    \<and> set (disjuncts (to_dnf (c st ! i))) = clause i ` {0..i}
    \<and> (\<forall>j. j \<le> i \<longrightarrow>
          set (literals (clause i j)) = insert (p st ! j) ((\<lambda>m. s st ! m) ` {j + 1..i})
        \<and> length (literals (clause i j)) = i - j + 1)"
    by (elim exE conjE)
  have two: "(2::nat) < 32" by simp
  note b = a [rule_format, OF two]
  note b1 = b [THEN conjunct1]
    and d = b [THEN conjunct2, THEN conjunct1]
    and b4 = b [THEN conjunct2, THEN conjunct2, THEN conjunct2, THEN conjunct1]
    and b6 = b [THEN conjunct2, THEN conjunct2, THEN conjunct2, THEN conjunct2, THEN conjunct2]
  from b1 have "eval_expr (\<lambda>n. True) (c st ! 2)
      = (\<exists>j. j \<le> (2::nat) \<and> True \<and> (\<forall>m. j < m \<and> m \<le> 2 \<longrightarrow> True))" by (rule spec)
  then have e: "eval_expr (\<lambda>n. True) (c st ! 2)" by (auto intro: exI [of _ 0])
  from b4 have l: "length (disjuncts (to_dnf (c st ! 2))) = 3" by simp
  from b6 [rule_format, of 0]
  have "set (literals (clause 2 0)) = insert (p st ! 0) ((\<lambda>m. s st ! m) ` {0 + 1..2})"
    and "length (literals (clause 2 0)) = 3" by simp_all
  with r e d l show ?thesis by (intro exI conjI)
qed

end
